theory Spec2Isabelle
  imports Complex_Main "HOL-Library.Sublist"
begin

section \<open>JSON values and flat nodes\<close>

text \<open>
  The values that \<^verbatim>\<open>JSON.parse\<close> produces. A string is a list of code units (here the
  8-bit \<^typ>\<open>char\<close>, read as the code units 0..255); a number is a finite double, hence a
  rational. \<open>JObj\<close> lists the own properties of an object in the order
  \<^verbatim>\<open>Object.keys\<close> enumerates them; the keys of an object are distinct.
\<close>

datatype json =
    JNull
  | JBool bool
  | JNum rat
  | JStr string
  | JArr "json list"
  | JObj "(string \<times> json) list"

text \<open>The \<^verbatim>\<open>typeof\<close> operator and \<^verbatim>\<open>Array.isArray\<close>.\<close>

fun typeof :: "json \<Rightarrow> string" where
  "typeof JNull = ''object''"
| "typeof (JBool b) = ''boolean''"
| "typeof (JNum n) = ''number''"
| "typeof (JStr s) = ''string''"
| "typeof (JArr xs) = ''object''"
| "typeof (JObj ms) = ''object''"

fun isArray :: "json \<Rightarrow> bool" where
  "isArray (JArr xs) = True"
| "isArray v = False"

text \<open>\<^verbatim>\<open>src/types.ts\<close>: \<^verbatim>\<open>FlatNode\<close>. The optional fields are unset (\<open>None\<close>) or set;
  the field \<^verbatim>\<open>id\<close> is \<open>nid\<close> and \<^verbatim>\<open>value\<close> is \<open>val\<close>.\<close>

text \<open>A depth is an integer: the sentinel entry of \<open>nestJson\<close> has depth \<open>-1\<close>.\<close>

record FlatNode =
  nid :: string
  key :: string
  val :: json
  depth :: int
  originalLine :: "int option"
  isMatch :: "bool option"

record DocumentData =
  doc_id :: string
  name :: string
  sourceText :: string
  flatNodes :: "FlatNode list"
  rawJson :: json

section \<open>\<^verbatim>\<open>src/utils.ts\<close>: flattenJson\<close>

text \<open>
  \<^verbatim>\<open>generateId = () => Math.random().toString(36).substring(2, 9)\<close> reads the
  environment's random source. The source is a parameter \<open>rnd\<close>: the sequence of strings
  that the successive calls of one run return; the state is the number of calls made so far.
\<close>

type_synonym rand = "nat \<Rightarrow> string"

definition generateId :: "rand \<Rightarrow> nat \<Rightarrow> string \<times> nat" where
  "generateId rnd s = (rnd s, Suc s)"

text \<open>Decimal rendering of an array index, for the template literal \<^verbatim>\<open>`[${index}]`\<close>.\<close>

fun string_of_nat :: "nat \<Rightarrow> string" where
  "string_of_nat n =
     (if n < 10 then [char_of (48 + n)]
      else string_of_nat (n div 10) @ [char_of (48 + n mod 10)])"

definition index_key :: "nat \<Rightarrow> string" where
  "index_key index = ''['' @ string_of_nat index @ '']''"

definition mk_node :: "string \<Rightarrow> string \<Rightarrow> json \<Rightarrow> int \<Rightarrow> FlatNode" where
  "mk_node i k v d =
     \<lparr>nid = i, key = k, val = v, depth = d, originalLine = None, isMatch = None\<rparr>"

text \<open>
  \<open>flattenJson rnd data d s\<close> returns the rows and the state of the random source
  after the call. The two \<^verbatim>\<open>forEach\<close> loops are the functions \<open>forEach_item\<close>
  (array elements, with the running index) and \<open>forEach_key\<close> (object members); both
  carry the local variable \<^verbatim>\<open>nodes\<close>. The unused parameter \<^verbatim>\<open>parentKey\<close> is
  dropped. The object \<^verbatim>\<open>id: generateId(), ...\<close> is pushed before the recursive call.
\<close>

fun flattenJson :: "rand \<Rightarrow> json \<Rightarrow> int \<Rightarrow> nat \<Rightarrow> FlatNode list \<times> nat"
  and forEach_item :: "rand \<Rightarrow> json list \<Rightarrow> nat \<Rightarrow> int \<Rightarrow> FlatNode list \<Rightarrow> nat \<Rightarrow> FlatNode list \<times> nat"
  and forEach_key :: "rand \<Rightarrow> (string \<times> json) list \<Rightarrow> int \<Rightarrow> FlatNode list \<Rightarrow> nat \<Rightarrow> FlatNode list \<times> nat"
where
  "flattenJson rnd data d s =
     (if typeof data = ''object'' \<and> data \<noteq> JNull then
        (case data of
           JArr items \<Rightarrow> forEach_item rnd items 0 d [] s
         | JObj members \<Rightarrow> forEach_key rnd members d [] s
         | _ \<Rightarrow> ([], s))
      else ([], s))"
| "forEach_item rnd [] index d nodes s = (nodes, s)"
| "forEach_item rnd (item # rest) index d nodes s =
     (if typeof item = ''object'' then
        (case generateId rnd s of (i, s1) \<Rightarrow>
           (case flattenJson rnd item (d + 1) s1 of (sub, s2) \<Rightarrow>
              forEach_item rnd rest (Suc index) d
                ((nodes @ [mk_node i (index_key index) (JStr '''') d]) @ sub) s2))
      else
        (case generateId rnd s of (i, s1) \<Rightarrow>
           forEach_item rnd rest (Suc index) d
             (nodes @ [mk_node i (index_key index) item d]) s1))"
| "forEach_key rnd [] d nodes s = (nodes, s)"
| "forEach_key rnd ((k, v) # rest) d nodes s =
     (if typeof v = ''object'' \<and> v \<noteq> JNull then
        (case generateId rnd s of (i, s1) \<Rightarrow>
           (case flattenJson rnd v (d + 1) s1 of (sub, s2) \<Rightarrow>
              forEach_key rnd rest d
                ((nodes @ [mk_node i k (JStr '''') d]) @ sub) s2))
      else
        (case generateId rnd s of (i, s1) \<Rightarrow>
           forEach_key rnd rest d (nodes @ [mk_node i k v d]) s1))"

section \<open>\<^verbatim>\<open>src/utils.ts\<close>: nestJson\<close>

subsection \<open>Objects under construction\<close>

text \<open>
  \<^verbatim>\<open>nestJson\<close> fills objects through references kept on its stack, so the objects it
  creates live in a store: an address is an index into the list of allocated objects. A
  property holds a row's payload (\<open>Val\<close>) or a reference to an allocated object
  (\<open>Ref\<close>). An allocated object carries its prototype, since the assignment
  \<^verbatim>\<open>parent[node.key] = ...\<close> is the language's property assignment: for the key
  \<^verbatim>\<open>__proto__\<close> it reaches the accessor that every plain object inherits from
  \<^verbatim>\<open>Object.prototype\<close>, and the accessor's setter replaces the prototype (for an object
  or \<^verbatim>\<open>null\<close>) or does nothing (for any other value) instead of creating a property.
\<close>

type_synonym addr = nat

datatype slot = Val json | Ref addr

datatype proto = ObjectPrototype | ProtoNull | ProtoRef addr | ProtoVal json

datatype hobj = HObject proto "(string \<times> slot) list" | HArray "slot list"

type_synonym heap = "hobj list"

text \<open>
  \<open>TypeError\<close> and \<open>RangeError\<close> are the exceptions of the language; \<open>Dangling\<close> marks
  a store that no run produces (an address outside the store, a prototype chain longer
  than the store).
\<close>

datatype error = TypeError | RangeError | Dangling

text \<open>Creating or overwriting an own property: an existing key keeps its position, a new
  key goes last.\<close>

fun put_own :: "string \<Rightarrow> slot \<Rightarrow> (string \<times> slot) list \<Rightarrow> (string \<times> slot) list" where
  "put_own k v [] = [(k, v)]"
| "put_own k v (p # ps) = (if fst p = k then (k, v) # ps else p # put_own k v ps)"

text \<open>
  Does a lookup of \<^verbatim>\<open>__proto__\<close> that starts at prototype \<open>p\<close> end at the accessor of
  \<^verbatim>\<open>Object.prototype\<close>? An own data property of that name on the way shadows it, and a
  chain ending in \<^verbatim>\<open>null\<close> never reaches it. The fuel bounds the length of the chain;
  the assignment supplies the size of the store.
\<close>

fun sees_accessor :: "heap \<Rightarrow> nat \<Rightarrow> proto \<Rightarrow> bool option" where
  "sees_accessor h fuel ObjectPrototype = Some True"
| "sees_accessor h fuel ProtoNull = Some False"
| "sees_accessor h fuel (ProtoVal v) =
     Some (case v of JObj ms \<Rightarrow> ''__proto__'' \<notin> fst ` set ms | _ \<Rightarrow> True)"
| "sees_accessor h 0 (ProtoRef a) = None"
| "sees_accessor h (Suc fuel) (ProtoRef a) =
     (if a < length h then
        (case h ! a of
           HObject p props \<Rightarrow>
             if ''__proto__'' \<in> fst ` set props then Some False else sees_accessor h fuel p
         | HArray xs \<Rightarrow> Some True)
      else None)"

text \<open>Walking the prototype chain from object \<open>b\<close>: is object \<open>a\<close> on it? (The setter
  refuses a prototype that would close a cycle.)\<close>

fun chain_hits :: "heap \<Rightarrow> nat \<Rightarrow> addr \<Rightarrow> addr \<Rightarrow> bool option" where
  "chain_hits h 0 b a = None"
| "chain_hits h (Suc fuel) b a =
     (if b = a then Some True
      else if b < length h then
        (case h ! b of
           HObject p props \<Rightarrow> (case p of ProtoRef c \<Rightarrow> chain_hits h fuel c a | _ \<Rightarrow> Some False)
         | HArray xs \<Rightarrow> Some False)
      else None)"

text \<open>The setter of \<^verbatim>\<open>__proto__\<close>, called on object \<open>a\<close> (prototype \<open>p\<close>, properties
  \<open>props\<close>) with value \<open>v\<close>.\<close>

definition set_prototype :: "heap \<Rightarrow> addr \<Rightarrow> proto \<Rightarrow> (string \<times> slot) list \<Rightarrow> slot \<Rightarrow> error + hobj" where
  "set_prototype h a p props v =
     (case v of
        Ref b \<Rightarrow>
          if p = ProtoRef b then Inr (HObject p props)
          else (case chain_hits h (length h) b a of
                  None \<Rightarrow> Inl Dangling
                | Some True \<Rightarrow> Inl TypeError
                | Some False \<Rightarrow> Inr (HObject (ProtoRef b) props))
      | Val JNull \<Rightarrow> Inr (HObject ProtoNull props)
      | Val (JArr xs) \<Rightarrow> Inr (HObject (ProtoVal (JArr xs)) props)
      | Val (JObj ms) \<Rightarrow> Inr (HObject (ProtoVal (JObj ms)) props)
      | Val _ \<Rightarrow> Inr (HObject p props))"

text \<open>The assignment \<^verbatim>\<open>o[k] = v\<close> on the plain object \<open>o\<close> at address \<open>a\<close>.\<close>

definition assign_prop :: "heap \<Rightarrow> addr \<Rightarrow> proto \<Rightarrow> (string \<times> slot) list \<Rightarrow> string \<Rightarrow> slot \<Rightarrow> error + hobj" where
  "assign_prop h a p props k v =
     (if k \<in> fst ` set props then Inr (HObject p (put_own k v props))
      else if k = ''__proto__'' then
        (case sees_accessor h (length h) p of
           None \<Rightarrow> Inl Dangling
         | Some True \<Rightarrow> set_prototype h a p props v
         | Some False \<Rightarrow> Inr (HObject p (put_own k v props)))
      else Inr (HObject p (put_own k v props)))"

text \<open>
  Both branches of the loop body end in the same statement,
  \<^verbatim>\<open>if (Array.isArray(parent)) parent.push(x); else parent[node.key] = x;\<close>
\<close>

definition attach :: "heap \<Rightarrow> addr \<Rightarrow> string \<Rightarrow> slot \<Rightarrow> error + heap" where
  "attach h parent k x =
     (if parent < length h then
        (case h ! parent of
           HArray xs \<Rightarrow> Inr (h[parent := HArray (xs @ [x])])
         | HObject p props \<Rightarrow>
             (case assign_prop h parent p props k x of
                Inl e \<Rightarrow> Inl e
              | Inr ob \<Rightarrow> Inr (h[parent := ob])))
      else Inl Dangling)"

text \<open>
  The order in which the own properties of a plain object are enumerated
  (\<^verbatim>\<open>Object.keys\<close>, \<^verbatim>\<open>JSON.stringify\<close>): first the keys that are array indices (the
  decimal numerals of the integers from 0 to \<^verbatim>\<open>2^32 - 2\<close>, without leading zeros) in
  ascending numeric order, then the other keys in the order of their creation.
\<close>

definition is_digit :: "char \<Rightarrow> bool" where
  "is_digit c = (48 \<le> (of_char c :: nat) \<and> (of_char c :: nat) \<le> 57)"

definition nat_of_digits :: "string \<Rightarrow> nat" where
  "nat_of_digits k = foldl (\<lambda>n c. 10 * n + (of_char c - 48)) 0 k"

definition is_array_index :: "string \<Rightarrow> bool" where
  "is_array_index k =
     (k \<noteq> [] \<and> list_all is_digit k \<and> (k = ''0'' \<or> hd k \<noteq> CHR ''0'')
      \<and> nat_of_digits k < 2 ^ 32 - 1)"

definition own_keys_order :: "(string \<times> 'a) list \<Rightarrow> (string \<times> 'a) list" where
  "own_keys_order props =
     sort_key (\<lambda>p. nat_of_digits (fst p)) (filter (\<lambda>p. is_array_index (fst p)) props)
     @ filter (\<lambda>p. \<not> is_array_index (fst p)) props"

text \<open>
  Reading a stored value back as a JSON value, as \<^verbatim>\<open>JSON.stringify\<close> sees it: the own
  properties in the order of their enumeration, recursively; the prototype is not part of
  the value. The fuel bounds the nesting depth by the size of the store.
\<close>

fun reify :: "nat \<Rightarrow> heap \<Rightarrow> slot \<Rightarrow> json option" where
  "reify fuel h (Val v) = Some v"
| "reify 0 h (Ref a) = None"
| "reify (Suc fuel) h (Ref a) =
     (if a < length h then
        (case h ! a of
           HObject p props \<Rightarrow>
             map_option JObj
               (those (map (\<lambda>(k, x). map_option (Pair k) (reify fuel h x)) (own_keys_order props)))
         | HArray xs \<Rightarrow> map_option JArr (those (map (reify fuel h) xs)))
      else None)"

subsection \<open>The loop\<close>

text \<open>The stack is a list whose head is the top entry
  \<^verbatim>\<open>stack[stack.length - 1]\<close>; an entry is the pair of \<^verbatim>\<open>obj\<close> and \<^verbatim>\<open>depth\<close>.\<close>

record nest_state =
  heap :: heap
  stack :: "(addr \<times> int) list"

text \<open>\<^verbatim>\<open>while (stack.length > 1 && stack[stack.length - 1].depth >= node.depth) stack.pop()\<close>\<close>

fun pop_stack :: "int \<Rightarrow> (addr \<times> int) list \<Rightarrow> (addr \<times> int) list" where
  "pop_stack d (e # below # rest) =
     (if snd e \<ge> d then pop_stack d (below # rest) else e # below # rest)"
| "pop_stack d stk = stk"

definition isParent :: "FlatNode \<Rightarrow> FlatNode option \<Rightarrow> bool" where
  "isParent node nextNode = (case nextNode of None \<Rightarrow> False | Some nx \<Rightarrow> depth nx > depth node)"

text \<open>The body of the \<^verbatim>\<open>for\<close> loop, for the row \<open>node\<close> and the row after it
  (\<open>None\<close> when \<^verbatim>\<open>nodes[i + 1]\<close> is \<^verbatim>\<open>undefined\<close>).\<close>

definition nest_row :: "FlatNode \<Rightarrow> FlatNode option \<Rightarrow> nest_state \<Rightarrow> error + nest_state" where
  "nest_row node nextNode st =
     (let stk = pop_stack (depth node) (stack st) in
      case stk of
        [] \<Rightarrow> Inl TypeError
      | (parent, pd) # below \<Rightarrow>
          if isParent node nextNode then
            (let newObj = length (heap st);
                 h1 = heap st @ [HObject ObjectPrototype []]
             in case attach h1 parent (key node) (Ref newObj) of
                  Inl e \<Rightarrow> Inl e
                | Inr h2 \<Rightarrow> Inr \<lparr>heap = h2, stack = (newObj, depth node) # stk\<rparr>)
          else
            (case attach (heap st) parent (key node) (Val (val node)) of
               Inl e \<Rightarrow> Inl e
             | Inr h2 \<Rightarrow> Inr \<lparr>heap = h2, stack = stk\<rparr>))"

fun nest_loop :: "FlatNode list \<Rightarrow> nest_state \<Rightarrow> error + nest_state" where
  "nest_loop [] st = Inr st"
| "nest_loop (node # rest) st =
     (case nest_row node (case rest of [] \<Rightarrow> None | nx # after \<Rightarrow> Some nx) st of
        Inl e \<Rightarrow> Inl e
      | Inr st' \<Rightarrow> nest_loop rest st')"

definition init_state :: nest_state where
  "init_state = \<lparr>heap = [HObject ObjectPrototype []], stack = [(0, - 1)]\<rparr>"

definition nestJson :: "FlatNode list \<Rightarrow> error + json" where
  "nestJson nodes =
     (if length nodes = 0 then Inr (JObj [])
      else
        (case nest_loop nodes init_state of
           Inl e \<Rightarrow> Inl e
         | Inr st \<Rightarrow>
             (case reify (length (heap st)) (heap st) (Ref 0) of
                None \<Rightarrow> Inl Dangling
              | Some obj \<Rightarrow> Inr obj)))"

section \<open>\<^verbatim>\<open>src/utils.ts\<close>: checkMatch and getHashTags\<close>

text \<open>\<^verbatim>\<open>!value\<close> is true of the falsy values: \<^verbatim>\<open>null\<close>, \<^verbatim>\<open>false\<close>, \<^verbatim>\<open>0\<close> and the
  empty string.\<close>

fun falsy :: "json \<Rightarrow> bool" where
  "falsy JNull = True"
| "falsy (JBool b) = (\<not> b)"
| "falsy (JNum n) = (n = 0)"
| "falsy (JStr s) = (s = [])"
| "falsy (JArr xs) = False"
| "falsy (JObj ms) = False"

text \<open>\<^verbatim>\<open>String.prototype.trim\<close> removes white space and line terminators from both ends;
  among the code units 0..255 these are TAB, LF, VT, FF, CR, SP and NBSP.\<close>

definition is_whitespace :: "char \<Rightarrow> bool" where
  "is_whitespace c = (of_char c \<in> {9, 10, 11, 12, 13, 32, 160 :: nat})"

definition trim :: "string \<Rightarrow> string" where
  "trim s = rev (dropWhile is_whitespace (rev (dropWhile is_whitespace s)))"

text \<open>\<^verbatim>\<open>source.includes(pat)\<close>: does \<open>pat\<close> start at some position of \<open>source\<close>?\<close>

fun str_includes :: "string \<Rightarrow> string \<Rightarrow> bool" where
  "str_includes [] pat = (pat = [])"
| "str_includes (c # cs) pat = (prefix pat (c # cs) \<or> str_includes cs pat)"

definition checkMatch :: "json \<Rightarrow> string \<Rightarrow> bool" where
  "checkMatch v source =
     (if falsy v \<or> typeof v \<noteq> ''string'' then True
      else
        (case v of
           JStr s \<Rightarrow>
             (let normalizedValue = trim s
              in if length normalizedValue = 0 then True
                 else str_includes source normalizedValue)
         | _ \<Rightarrow> True))"

text \<open>\<^verbatim>\<open>'#'.repeat(depth + 1)\<close>; \<^verbatim>\<open>repeat\<close> throws a RangeError for a negative count.\<close>

definition getHashTags :: "int \<Rightarrow> error + string" where
  "getHashTags d =
     (if d + 1 < 0 then Inl RangeError else Inr (replicate (nat (d + 1)) (CHR ''#'')))"

section \<open>\<^verbatim>\<open>src/components/OntologyEditor.tsx\<close>: handleRowChange\<close>

datatype edit_type = Structure | Key | Value

text \<open>\<^verbatim>\<open>value.match(/^(#+)/)\<close>: \<open>None\<close> for \<^verbatim>\<open>null\<close>, otherwise the group
  \<^verbatim>\<open>match[1]\<close>, the longest run of \<^verbatim>\<open>#\<close> at the start of the string.\<close>

definition match_hashes :: "string \<Rightarrow> string option" where
  "match_hashes v =
     (case takeWhile (\<lambda>c. c = CHR ''#'') v of [] \<Rightarrow> None | m # ms \<Rightarrow> Some (m # ms))"

text \<open>\<^verbatim>\<open>match ? match[1].length - 1 : 0\<close>\<close>

definition structure_depth :: "string \<Rightarrow> int" where
  "structure_depth v = (case match_hashes v of Some m \<Rightarrow> int (length m) - 1 | None \<Rightarrow> 0)"

text \<open>The result is the list \<^verbatim>\<open>newNodes\<close> that the handler passes to \<^verbatim>\<open>onUpdate\<close>.\<close>

definition handleRowChange :: "DocumentData \<Rightarrow> string \<Rightarrow> string \<Rightarrow> edit_type \<Rightarrow> FlatNode list" where
  "handleRowChange doc i v ty =
     map (\<lambda>node.
            if nid node \<noteq> i then node
            else
              (case ty of
                 Structure \<Rightarrow> node\<lparr>depth := structure_depth v\<rparr>
               | Key \<Rightarrow> node\<lparr>key := v\<rparr>
               | Value \<Rightarrow> node\<lparr>val := JStr v, isMatch := Some (checkMatch (JStr v) (sourceText doc))\<rparr>))
         (flatNodes doc)"

section \<open>The rows of flattenJson\<close>

text \<open>The part of a row that does not depend on the random source.\<close>

definition shape :: "FlatNode \<Rightarrow> string \<times> json \<times> int" where
  "shape n = (key n, val n, depth n)"

text \<open>The rows of \<open>flattenJson\<close> without their identifiers, as a function of the value
  alone (\<open>flatten_rows\<close> below shows that this is what the loops compute).\<close>

fun rows :: "json \<Rightarrow> int \<Rightarrow> (string \<times> json \<times> int) list"
  and item_rows :: "json list \<Rightarrow> nat \<Rightarrow> int \<Rightarrow> (string \<times> json \<times> int) list"
  and member_rows :: "(string \<times> json) list \<Rightarrow> int \<Rightarrow> (string \<times> json \<times> int) list"
where
  "rows (JArr items) d = item_rows items 0 d"
| "rows (JObj members) d = member_rows members d"
| "rows JNull d = []"
| "rows (JBool b) d = []"
| "rows (JNum n) d = []"
| "rows (JStr s) d = []"
| "item_rows [] index d = []"
| "item_rows (item # rest) index d =
     (if typeof item = ''object'' then (index_key index, JStr '''', d) # rows item (d + 1)
      else [(index_key index, item, d)]) @ item_rows rest (Suc index) d"
| "member_rows [] d = []"
| "member_rows ((k, v) # rest) d =
     (if typeof v = ''object'' \<and> v \<noteq> JNull then (k, JStr '''', d) # rows v (d + 1)
      else [(k, v, d)]) @ member_rows rest d"

text \<open>A row whose optional fields are unset, as \<open>flattenJson\<close> leaves them.\<close>

definition unset :: "FlatNode \<Rightarrow> bool" where
  "unset n = (originalLine n = None \<and> isMatch n = None)"

text \<open>An object or an array, as opposed to a string, a number, a boolean or
  \<^verbatim>\<open>null\<close>.\<close>

fun is_container :: "json \<Rightarrow> bool" where
  "is_container (JArr xs) = True"
| "is_container (JObj ms) = True"
| "is_container v = False"

text \<open>A random source for the examples: the draws \<^verbatim>\<open>id0\<close>, \<^verbatim>\<open>id1\<close>, ...\<close>

definition rnd_demo :: rand where
  "rnd_demo n = ''id'' @ string_of_nat n"

section \<open>States of a run of nestJson\<close>

text \<open>
  What holds of the store and the stack at every point of a run: every allocated object is
  a plain object; a reference held in a property or as a prototype points to an object
  allocated later than its holder; the stack is not empty, its bottom entry is the sentinel
  for the root object, and its entries are allocated.
\<close>

fun ref_ok :: "nat \<Rightarrow> addr \<Rightarrow> slot \<Rightarrow> bool" where
  "ref_ok n a (Ref b) = (a < b \<and> b < n)"
| "ref_ok n a (Val v) = True"

fun proto_ok :: "nat \<Rightarrow> addr \<Rightarrow> proto \<Rightarrow> bool" where
  "proto_ok n a (ProtoRef b) = (a < b \<and> b < n)"
| "proto_ok n a p = True"

fun cell_ok :: "nat \<Rightarrow> addr \<Rightarrow> hobj \<Rightarrow> bool" where
  "cell_ok n a (HObject p props) = (proto_ok n a p \<and> (\<forall>x \<in> snd ` set props. ref_ok n a x))"
| "cell_ok n a (HArray xs) = False"

definition heap_ok :: "heap \<Rightarrow> bool" where
  "heap_ok h = (\<forall>a < length h. cell_ok (length h) a (h ! a))"

definition stack_ok :: "heap \<Rightarrow> (addr \<times> int) list \<Rightarrow> bool" where
  "stack_ok h stk = (stk \<noteq> [] \<and> last stk = (0, - 1) \<and> (\<forall>e \<in> set stk. fst e < length h))"

definition state_ok :: "nest_state \<Rightarrow> bool" where
  "state_ok st = (heap_ok (heap st) \<and> stack_ok (heap st) (stack st))"

text \<open>The own properties of the object at an address.\<close>

fun props_of :: "hobj \<Rightarrow> (string \<times> slot) list" where
  "props_of (HObject p props) = props"
| "props_of (HArray xs) = []"

text \<open>The insertion target of a row of depth \<open>d\<close>: the object of the top entry after the
  \<^verbatim>\<open>while\<close> loop.\<close>

definition target :: "int \<Rightarrow> (addr \<times> int) list \<Rightarrow> addr" where
  "target d stk = fst (hd (pop_stack d stk))"

text \<open>No array occurs in a JSON value.\<close>

fun no_array :: "json \<Rightarrow> bool" where
  "no_array (JArr xs) = False"
| "no_array (JObj ms) = (\<forall>v \<in> snd ` set ms. no_array v)"
| "no_array v = True"

text \<open>The states that a run of the loop can be in: the initial one, and every state that
  the loop body yields from such a state, for any row and any row after it.\<close>

inductive run_state :: "nest_state \<Rightarrow> bool" where
  init: "run_state init_state"
| step: "run_state st \<Longrightarrow> nest_row node nextNode st = Inr st' \<Longrightarrow> run_state st'"

text \<open>Every payload stored in a property of the store is free of arrays.\<close>

definition vals_ok :: "heap \<Rightarrow> bool" where
  "vals_ok h = (\<forall>ob \<in> set h. \<forall>x \<in> snd ` set (props_of ob). \<forall>v. x = Val v \<longrightarrow> no_array v)"

text \<open>Rows for the examples: \<open>jump_rows\<close> has a row of depth 5 under a row of depth 0,
  and \<open>valued_rows\<close> a row with a non-empty payload followed by a deeper row.\<close>

definition jump_rows :: "FlatNode list" where
  "jump_rows = [mk_node ''r1'' ''a'' (JStr '''') 0, mk_node ''r2'' ''b'' (JStr ''x'') 5,
                mk_node ''r3'' ''c'' (JNum 1) 2]"

definition valued_rows :: "FlatNode list" where
  "valued_rows = [mk_node ''r1'' ''a'' (JStr ''payload'') 0, mk_node ''r2'' ''b'' (JStr ''x'') 1]"

text \<open>
  Rows with the key \<^verbatim>\<open>__proto__\<close>, as the editor produces them. \<open>proto_container_rows\<close>:
  the rows of \<^verbatim>\<open>{"a": {"b": "x"}}\<close> after a value edit and a key edit of the first row.
  \<open>proto_leaf_rows\<close>: the rows of \<^verbatim>\<open>{"a": {"__proto__": "x"}}\<close> after a value edit of
  the first row.
\<close>

definition doc_ab :: DocumentData where
  "doc_ab = \<lparr>doc_id = ''d'', name = ''n'', sourceText = '''',
             flatNodes = fst (flattenJson rnd_demo (JObj [(''a'', JObj [(''b'', JStr ''x'')])]) 0 0),
             rawJson = JObj [(''a'', JObj [(''b'', JStr ''x'')])]\<rparr>"

definition proto_container_rows :: "FlatNode list" where
  "proto_container_rows =
     handleRowChange (doc_ab\<lparr>flatNodes := handleRowChange doc_ab ''id0'' ''payload'' Value\<rparr>)
       ''id0'' ''__proto__'' Key"

definition doc_aproto :: DocumentData where
  "doc_aproto = \<lparr>doc_id = ''d'', name = ''n'', sourceText = '''',
             flatNodes =
               fst (flattenJson rnd_demo (JObj [(''a'', JObj [(''__proto__'', JStr ''x'')])]) 0 0),
             rawJson = JObj [(''a'', JObj [(''__proto__'', JStr ''x'')])]\<rparr>"

definition proto_leaf_rows :: "FlatNode list" where
  "proto_leaf_rows = handleRowChange doc_aproto ''id0'' ''payload'' Value"

text \<open>Rows in which a key that is an array index is created after another key.\<close>

definition index_key_rows :: "FlatNode list" where
  "index_key_rows = [mk_node ''r1'' ''b'' (JStr ''x'') 0, mk_node ''r2'' ''1'' (JStr ''y'') 0]"

text \<open>A document of two rows, for the examples below.\<close>

definition doc2 :: DocumentData where
  "doc2 = \<lparr>doc_id = ''d'', name = ''n'', sourceText = ''say hello'',
           flatNodes = [mk_node ''r1'' ''a'' (JStr '''') 0, mk_node ''r2'' ''b'' (JStr ''x'') 1],
           rawJson = JNull\<rparr>"

section \<open>What flattenJson emits\<close>

lemma shape_mk_node [simp]: "shape (mk_node i k v d) = (k, v, d)"
  by (simp add: shape_def mk_node_def)

declare flattenJson.simps [simp del]

lemma flatten_rows:
  "map shape (fst (flattenJson rnd data d s)) = rows data d"
  "map shape (fst (forEach_item rnd items index d nodes s)) = map shape nodes @ item_rows items index d"
  "map shape (fst (forEach_key rnd members d nodes s)) = map shape nodes @ member_rows members d"
proof (induction rnd data d s and rnd items index d nodes s and rnd members d nodes s
       rule: flattenJson_forEach_item_forEach_key.induct)
  case (1 rnd data d s)
  then show ?case by (cases data) (simp_all add: flattenJson.simps)
next
  case (2 rnd index d nodes s)
  then show ?case by simp
next
  case (3 rnd item rest index d nodes s)
  show ?case
  proof (cases "typeof item = ''object''")
    case True
    obtain sub s2 where f: "flattenJson rnd item (d + 1) (Suc s) = (sub, s2)"
      by (cases "flattenJson rnd item (d + 1) (Suc s)")
    from 3(1) [OF True, of "rnd s" "Suc s"] f
    have a: "map shape sub = rows item (d + 1)"
      by (simp add: generateId_def)
    from 3(2) [OF True, of "rnd s" "Suc s" sub s2] f
    have b: "map shape (fst (forEach_item rnd rest (Suc index) d
                ((nodes @ [mk_node (rnd s) (index_key index) (JStr '''') d]) @ sub) s2))
             = map shape ((nodes @ [mk_node (rnd s) (index_key index) (JStr '''') d]) @ sub)
               @ item_rows rest (Suc index) d"
      by (simp add: generateId_def)
    from True f a b show ?thesis
      by (simp add: generateId_def)
  next
    case False
    from 3(3) [OF False, of "rnd s" "Suc s"]
    have b: "map shape (fst (forEach_item rnd rest (Suc index) d
                (nodes @ [mk_node (rnd s) (index_key index) item d]) (Suc s)))
             = map shape (nodes @ [mk_node (rnd s) (index_key index) item d])
               @ item_rows rest (Suc index) d"
      by (simp add: generateId_def)
    from False b show ?thesis
      by (simp add: generateId_def)
  qed
next
  case (4 rnd d nodes s)
  then show ?case by simp
next
  case (5 rnd k v rest d nodes s)
  show ?case
  proof (cases "typeof v = ''object'' \<and> v \<noteq> JNull")
    case True
    obtain sub s2 where f: "flattenJson rnd v (d + 1) (Suc s) = (sub, s2)"
      by (cases "flattenJson rnd v (d + 1) (Suc s)")
    from 5(1) [OF True, of "rnd s" "Suc s"] f
    have a: "map shape sub = rows v (d + 1)"
      by (simp add: generateId_def)
    from 5(2) [OF True, of "rnd s" "Suc s" sub s2] f
    have b: "map shape (fst (forEach_key rnd rest d
                ((nodes @ [mk_node (rnd s) k (JStr '''') d]) @ sub) s2))
             = map shape ((nodes @ [mk_node (rnd s) k (JStr '''') d]) @ sub)
               @ member_rows rest d"
      by (simp add: generateId_def)
    from True f a b show ?thesis
      by (simp add: generateId_def)
  next
    case False
    from 5(3) [OF False, of "rnd s" "Suc s"]
    have b: "map shape (fst (forEach_key rnd rest d
                (nodes @ [mk_node (rnd s) k v d]) (Suc s)))
             = map shape (nodes @ [mk_node (rnd s) k v d])
               @ member_rows rest d"
      by (simp add: generateId_def)
    from False b show ?thesis
      by (cases "typeof v = ''object''") (simp_all add: generateId_def)
  qed
qed

lemma flatten_count:
  "snd (flattenJson rnd data d s) = s + length (rows data d)"
  "snd (forEach_item rnd items index d nodes s) = s + length (item_rows items index d)"
  "snd (forEach_key rnd members d nodes s) = s + length (member_rows members d)"
proof (induction rnd data d s and rnd items index d nodes s and rnd members d nodes s
       rule: flattenJson_forEach_item_forEach_key.induct)
  case (1 rnd data d s)
  then show ?case by (cases data) (simp_all add: flattenJson.simps)
next
  case (3 rnd item rest index d nodes s)
  then show ?case
    by (cases "flattenJson rnd item (d + 1) (Suc s)") (simp add: generateId_def)
next
  case (5 rnd k v rest d nodes s)
  then show ?case
    by (cases "flattenJson rnd v (d + 1) (Suc s)") (auto simp add: generateId_def)
qed simp_all

lemma index_key_small:
  "index_key 0 = ''[0]''" "index_key (Suc 0) = ''[1]''" "index_key 1 = ''[1]''" "index_key 2 = ''[2]''"
  by code_simp+

lemma rnd_demo_small: "rnd_demo 0 = ''id0''" "rnd_demo 1 = ''id1''" "rnd_demo (Suc 0) = ''id1''"
  by code_simp+

lemma typeof_object_iff: "typeof v = ''object'' \<longleftrightarrow> v = JNull \<or> is_container v"
  by (cases v) simp_all

lemma member_rows_concat:
  "member_rows members d =
     concat (map (\<lambda>(k, v). if is_container v then (k, JStr '''', d) # rows v (d + 1)
                             else [(k, v, d)]) members)"
  by (induction members) (auto simp: typeof_object_iff)

lemma item_rows_concat:
  "item_rows items index d =
     concat (map (\<lambda>(i, v). if v = JNull then [(index_key i, JStr '''', d)]
                             else if is_container v then (index_key i, JStr '''', d) # rows v (d + 1)
                             else [(index_key i, v, d)])
                 (zip [index ..< index + length items] items))"
proof (induction items arbitrary: index)
  case Nil
  then show ?case by simp
next
  case (Cons item rest)
  have "[index ..< Suc index + length rest] = index # [Suc index ..< Suc index + length rest]"
    by (rule upt_conv_Cons) simp
  then have u: "[index ..< index + length (item # rest)] = index # [Suc index ..< Suc index + length rest]"
    by (simp del: upt_Suc)
  from Cons.IH [of "Suc index"] show ?case
    unfolding u by (auto simp: typeof_object_iff)
qed

text \<open>
  Claim C3, amended. For each member of an object, in order: when the member's value is
  an object or an array, empty or not, \<open>flattenJson\<close> emits a container row (the key,
  the empty string as payload, the current depth) followed by the rows of the value one
  level deeper; for a string, a number, a boolean or \<^verbatim>\<open>null\<close> it emits exactly one
  row carrying the value. For each element of an array other than \<^verbatim>\<open>null\<close> the same
  holds with the key \<^verbatim>\<open>[i]\<close> of its index. A \<^verbatim>\<open>null\<close> element contributes exactly
  one row, with the key of its index and the current depth; only the payload of that row
  (\<open>null_payload\<close>) is left open. Rows are compared without their identifiers.
\<close>

theorem flatten_classification:
  "map shape (fst (flattenJson rnd (JObj members) d s)) =
     concat (map (\<lambda>(k, v).
                    if is_container v
                    then (k, JStr '''', d) # map shape (fst (flattenJson rnd v (d + 1) 0))
                    else [(k, v, d)]) members)
   \<and> (\<exists>null_payload.
        map shape (fst (flattenJson rnd (JArr items) d s)) =
          concat (map (\<lambda>(i, v).
                         if v = JNull then [(index_key i, null_payload i, d)]
                         else if is_container v
                         then (index_key i, JStr '''', d) # map shape (fst (flattenJson rnd v (d + 1) 0))
                         else [(index_key i, v, d)]) (zip [0 ..< length items] items)))"
proof -
  have "map shape (fst (flattenJson rnd (JArr items) d s)) =
          concat (map (\<lambda>(i, v).
                         if v = JNull then [(index_key i, JStr '''', d)]
                         else if is_container v
                         then (index_key i, JStr '''', d) # map shape (fst (flattenJson rnd v (d + 1) 0))
                         else [(index_key i, v, d)]) (zip [0 ..< length items] items))"
    unfolding flatten_rows(1) rows.simps using item_rows_concat [of items 0 d] by simp
  then have "\<exists>null_payload.
        map shape (fst (flattenJson rnd (JArr items) d s)) =
          concat (map (\<lambda>(i, v).
                         if v = JNull then [(index_key i, null_payload i, d)]
                         else if is_container v
                         then (index_key i, JStr '''', d) # map shape (fst (flattenJson rnd v (d + 1) 0))
                         else [(index_key i, v, d)]) (zip [0 ..< length items] items))"
    by (rule exI [where x = "\<lambda>i. JStr ''''"])
  moreover have "map shape (fst (flattenJson rnd (JObj members) d s)) =
     concat (map (\<lambda>(k, v).
                    if is_container v
                    then (k, JStr '''', d) # map shape (fst (flattenJson rnd v (d + 1) 0))
                    else [(k, v, d)]) members)"
    unfolding flatten_rows(1) rows.simps member_rows_concat by simp
  ultimately show ?thesis by blast
qed

theorem flatten_classification_witness:
  "map shape (fst (flattenJson rnd_demo (JArr [JStr ''x'', JArr [], JObj [(''a'', JNum 1)]]) 0 0))
       = [(''[0]'', JStr ''x'', 0), (''[1]'', JStr '''', 0), (''[2]'', JStr '''', 0),
          (''a'', JNum 1, 1)]
   \<and> map shape (fst (flattenJson rnd_demo (JObj [(''a'', JObj [(''b'', JStr ''x'')]), (''c'', JNull)]) 0 0))
       = [(''a'', JStr '''', 0), (''b'', JStr ''x'', 1), (''c'', JNull, 0)]
   \<and> (\<exists>payload. map shape (fst (flattenJson rnd_demo (JArr [JNull, JBool True]) 0 0))
       = [(''[0]'', payload, 0), (''[1]'', JBool True, 0)])"
proof -
  have z: "zip [0 ..< length [JStr ''x'', JArr [], JObj [(''a'', JNum 1)]]]
               [JStr ''x'', JArr [], JObj [(''a'', JNum 1)]]
           = [(0, JStr ''x''), (1, JArr []), (2, JObj [(''a'', JNum 1)])]"
    by (simp add: upt_conv_Cons)
  have z2: "zip [0 ..< length [JNull, JBool True]] [JNull, JBool True]
           = [(0, JNull), (1, JBool True)]"
    by (simp add: upt_conv_Cons)
  note k = index_key_small
  from flatten_classification [of rnd_demo "[]" 0 0 "[JNull, JBool True]"]
  obtain null_payload where
    "map shape (fst (flattenJson rnd_demo (JArr [JNull, JBool True]) 0 0))
       = [(''[0]'', null_payload 0, 0), (''[1]'', JBool True, 0)]"
    unfolding z2 by (auto simp: k)
  then have n: "\<exists>payload. map shape (fst (flattenJson rnd_demo (JArr [JNull, JBool True]) 0 0))
       = [(''[0]'', payload, 0), (''[1]'', JBool True, 0)]"
    by (rule exI [where x = "null_payload 0"])
  from n flatten_classification
         [of rnd_demo "[(''a'', JObj [(''b'', JStr ''x'')]), (''c'', JNull)]" 0 0
             "[JStr ''x'', JArr [], JObj [(''a'', JNum 1)]]"]
       flatten_classification [of rnd_demo "[(''a'', JNum 1)]" 1 0 "[]"]
       flatten_classification [of rnd_demo "[(''b'', JStr ''x'')]" 1 0 "[]"]
       flatten_classification [of rnd_demo "[]" 1 0 "[]"]
  show ?thesis
    unfolding z by (simp add: k)
qed

text \<open>
  Claim C3 as stated fails: a member whose value is the empty array gives one row whose
  payload is the empty string, the row of a container, and not a row carrying the empty
  array; an array element \<^verbatim>\<open>null\<close> also gives a row whose payload is the empty string, not
  a row carrying \<^verbatim>\<open>null\<close>. Nor do the rows tell a container from a leaf: a member
  whose value is the empty string gives the same row as a member whose value is the empty
  object.
\<close>

theorem flatten_leaf_counterexample:
  "map shape (fst (flattenJson rnd_demo (JObj [(''a'', JArr [])]) 0 0)) = [(''a'', JStr '''', 0)]
   \<and> map shape (fst (flattenJson rnd_demo (JObj [(''a'', JArr [])]) 0 0)) \<noteq> [(''a'', JArr [], 0)]
   \<and> map shape (fst (flattenJson rnd_demo (JArr [JNull]) 0 0)) = [(''[0]'', JStr '''', 0)]
   \<and> map shape (fst (flattenJson rnd_demo (JArr [JNull]) 0 0)) \<noteq> [(''[0]'', JNull, 0)]
   \<and> map shape (fst (flattenJson rnd_demo (JObj [(''a'', JStr '''')]) 0 0))
       = map shape (fst (flattenJson rnd_demo (JObj [(''a'', JObj [])]) 0 0))"
  by (simp add: flattenJson.simps generateId_def index_key_small)

lemma rows_scalar:
  "\<forall>r \<in> set (rows v d). \<not> is_container (fst (snd r))"
  "\<forall>r \<in> set (item_rows items index d). \<not> is_container (fst (snd r))"
  "\<forall>r \<in> set (member_rows members d). \<not> is_container (fst (snd r))"
  by (induction v d and items index d and members d rule: rows_item_rows_member_rows.induct)
     (auto simp: typeof_object_iff)

lemma flatten_payloads_scalar:
  assumes "n \<in> set (fst (flattenJson rnd v d s))"
  shows "\<not> is_container (val n)" and "no_array (val n)"
proof -
  from assms have "shape n \<in> set (map shape (fst (flattenJson rnd v d s)))" by simp
  then have "shape n \<in> set (rows v d)" by (simp only: flatten_rows(1))
  with rows_scalar(1) [of v d] show c: "\<not> is_container (val n)" by (auto simp: shape_def)
  then show "no_array (val n)" by (cases "val n") auto
qed


section \<open>The order of enumeration\<close>

lemma set_own_keys_order: "set (own_keys_order props) = set props"
  by (auto simp: own_keys_order_def)

lemma own_keys_order_plain:
  "\<forall>p \<in> set props. \<not> is_array_index (fst p) \<Longrightarrow> own_keys_order props = props"
proof -
  assume a: "\<forall>p \<in> set props. \<not> is_array_index (fst p)"
  then have "filter (\<lambda>p. is_array_index (fst p)) props = []"
    by (simp add: filter_empty_conv)
  moreover from a have "filter (\<lambda>p. \<not> is_array_index (fst p)) props = props"
    by (simp add: filter_id_conv)
  ultimately show ?thesis by (simp add: own_keys_order_def)
qed

lemma insort_key_map_same:
  "(\<And>p. g (f p) = g' p) \<Longrightarrow> insort_key g (f x) (map f xs) = map f (insort_key g' x xs)"
  by (induction xs) simp_all

lemma sort_key_map_same:
  "(\<And>p. g (f p) = g' p) \<Longrightarrow> sort_key g (map f xs) = map f (sort_key g' xs)"
  by (induction xs) (simp_all add: insort_key_map_same)

lemma own_keys_order_map:
  assumes "\<And>p. fst (f p) = fst p"
  shows "own_keys_order (map f props) = map f (own_keys_order props)"
proof -
  have "sort_key (\<lambda>p. nat_of_digits (fst p)) (map f (filter (\<lambda>p. is_array_index (fst p)) props))
      = map f (sort_key (\<lambda>p. nat_of_digits (fst p)) (filter (\<lambda>p. is_array_index (fst p)) props))"
    using sort_key_map_same
            [of "\<lambda>p. nat_of_digits (fst p)" f "\<lambda>p. nat_of_digits (fst p)"] assms
    by simp
  then show ?thesis
    by (simp add: own_keys_order_def filter_map comp_def assms)
qed

lemma is_digit_simps:
  "\<not> is_digit CHR ''a''" "\<not> is_digit CHR ''b''" "\<not> is_digit CHR ''c''" "\<not> is_digit CHR ''[''"
  "\<not> is_digit CHR ''_''" "is_digit CHR ''1''"
  by code_simp+

lemma not_index_first:
  "\<not> is_digit c \<Longrightarrow> \<not> is_array_index (c # cs)"
  by (simp add: is_array_index_def)

section \<open>The run of nestJson\<close>

lemma pop_stack_keeps:
  "stk \<noteq> [] \<Longrightarrow> pop_stack d stk \<noteq> [] \<and> last (pop_stack d stk) = last stk
                \<and> set (pop_stack d stk) \<subseteq> set stk"
  by (induction d stk rule: pop_stack.induct) auto

lemma pop_stack_top_less:
  "pop_stack d stk = e # below \<Longrightarrow> below \<noteq> [] \<Longrightarrow> snd e < d"
  by (induction d stk rule: pop_stack.induct) (auto split: if_splits)

lemma pop_stack_push:
  "dA < dB \<Longrightarrow> pop_stack dB ((a, dA) # stk) = (a, dA) # stk"
  by (cases stk) simp_all

lemma set_put_own: "set (put_own k x props) \<subseteq> insert (k, x) (set props)"
  by (induction props) auto

lemma put_own_fresh: "k \<notin> fst ` set props \<Longrightarrow> put_own k x props = props @ [(k, x)]"
  by (induction props) auto

lemma map_of_put_own: "map_of (put_own k x props) = (map_of props)(k \<mapsto> x)"
  by (induction props) (auto simp: fun_eq_iff)

lemma cell_ok_mono: "cell_ok n a ob \<Longrightarrow> n \<le> m \<Longrightarrow> cell_ok m a ob"
proof (cases ob)
  case (HObject p props)
  assume c: "cell_ok n a ob" and le: "n \<le> m"
  have "ref_ok m a x" if "ref_ok n a x" for x using that le by (cases x) auto
  moreover have "proto_ok m a p" if "proto_ok n a p" using that le by (cases p) auto
  ultimately show ?thesis using c HObject by auto
qed simp

lemma sees_accessor_total:
  "heap_ok h \<Longrightarrow> proto_ok (length h) lo p \<Longrightarrow> length h \<le> fuel + Suc lo
     \<Longrightarrow> \<exists>r. sees_accessor h fuel p = Some r"
proof (induction fuel arbitrary: p lo)
  case 0
  then show ?case by (cases p) auto
next
  case (Suc fuel)
  show ?case
  proof (cases p)
    case (ProtoRef b)
    with Suc.prems have b: "lo < b" "b < length h" by auto
    with Suc.prems(1) have c: "cell_ok (length h) b (h ! b)" by (simp add: heap_ok_def)
    then obtain q props where ob: "h ! b = HObject q props" by (cases "h ! b") auto
    with c have q: "proto_ok (length h) b q" by simp
    from b Suc.prems(3) have "length h \<le> fuel + Suc b" by simp
    from Suc.IH [OF Suc.prems(1) q this] ProtoRef b ob show ?thesis by auto
  qed auto
qed

text \<open>A value that the loop attaches: a row's payload, or the object it has just
  created.\<close>

lemma assign_prop_ok:
  assumes h: "heap_ok h" and a: "a < length h" and ob: "h ! a = HObject p props"
    and x: "ref_ok (length h) a x"
    and fresh: "\<And>b. x = Ref b \<Longrightarrow> h ! b = HObject ObjectPrototype []"
  shows "\<exists>q props'. assign_prop h a p props k x = Inr (HObject q props')
           \<and> cell_ok (length h) a (HObject q props')
           \<and> set props' \<subseteq> insert (k, x) (set props)
           \<and> (k \<noteq> ''__proto__'' \<longrightarrow> q = p \<and> props' = put_own k x props)"
proof -
  from h a have "cell_ok (length h) a (h ! a)"
    by (simp add: heap_ok_def)
  with ob have c: "cell_ok (length h) a (HObject p props)"
    by simp
  then have p: "proto_ok (length h) a p" by simp
  have put: "cell_ok (length h) a (HObject p (put_own k x props))"
    using c x set_put_own [of k x props] by auto
  note sub = set_put_own [of k x props]
  show ?thesis
  proof (cases "k \<in> fst ` set props \<or> k \<noteq> ''__proto__''")
    case True
    with put sub show ?thesis by (auto simp: assign_prop_def)
  next
    case False
    then have k: "k \<notin> fst ` set props" "k = ''__proto__''" by auto
    from sees_accessor_total [OF h p, of "length h"]
    obtain r where r: "sees_accessor h (length h) p = Some r" by auto
    show ?thesis
    proof (cases r)
      case False
      with k r put sub show ?thesis by (simp add: assign_prop_def)
    next
      case True
      have "\<exists>q. set_prototype h a p props x = Inr (HObject q props) \<and> proto_ok (length h) a q"
      proof (cases x)
        case (Val v)
        with p show ?thesis by (cases v) (simp_all add: set_prototype_def)
      next
        case (Ref b)
        with x have b: "a < b" "b < length h" by auto
        from fresh [OF Ref] have ob: "h ! b = HObject ObjectPrototype []" .
        from a obtain n where n: "length h = Suc n" by (cases "length h") auto
        from b ob have "chain_hits h (length h) b a = Some False"
          by (simp add: n)
        with Ref p b show ?thesis by (simp add: set_prototype_def)
      qed
      with True k r c show ?thesis by (auto simp: assign_prop_def)
    qed
  qed
qed

lemma heap_ok_update:
  "heap_ok h \<Longrightarrow> a < length h \<Longrightarrow> cell_ok (length h) a ob \<Longrightarrow> heap_ok (h[a := ob])"
  by (auto simp: heap_ok_def nth_list_update)

lemma heap_ok_alloc: "heap_ok h \<Longrightarrow> heap_ok (h @ [HObject ObjectPrototype []])"
  by (auto simp: heap_ok_def nth_append less_Suc_eq intro: cell_ok_mono)

lemma attach_ok:
  assumes h: "heap_ok h" and a: "parent < length h"
    and x: "ref_ok (length h) parent x"
    and fresh: "\<And>b. x = Ref b \<Longrightarrow> h ! b = HObject ObjectPrototype []"
  shows "\<exists>h' q props'. attach h parent k x = Inr h' \<and> heap_ok h' \<and> length h' = length h
           \<and> h' = h[parent := HObject q props']
           \<and> set props' \<subseteq> insert (k, x) (set (props_of (h ! parent)))
           \<and> (k \<noteq> ''__proto__'' \<longrightarrow> props' = put_own k x (props_of (h ! parent)))"
proof -
  from h a have "cell_ok (length h) parent (h ! parent)" by (simp add: heap_ok_def)
  then obtain p props where ob: "h ! parent = HObject p props" by (cases "h ! parent") auto
  from assign_prop_ok [OF h a ob x fresh, of k]
  obtain q props' where q: "assign_prop h parent p props k x = Inr (HObject q props')"
      "cell_ok (length h) parent (HObject q props')"
      "set props' \<subseteq> insert (k, x) (set props)"
      "k \<noteq> ''__proto__'' \<longrightarrow> q = p \<and> props' = put_own k x props"
    by blast
  from heap_ok_update [OF h a q(2)] q a ob show ?thesis
    by (auto simp: attach_def)
qed


lemma target_ok:
  assumes "stack_ok h stk"
  shows "\<exists>pd below. pop_stack d stk = (target d stk, pd) # below \<and> target d stk < length h
           \<and> stack_ok h (pop_stack d stk)"
proof -
  from assms have ne: "stk \<noteq> []" by (simp add: stack_ok_def)
  from pop_stack_keeps [OF ne, of d] assms
  have k: "pop_stack d stk \<noteq> []" "stack_ok h (pop_stack d stk)"
    by (auto simp: stack_ok_def)
  then obtain e below where e: "pop_stack d stk = e # below" by (cases "pop_stack d stk") auto
  with k show ?thesis by (cases e) (auto simp: target_def stack_ok_def)
qed

lemma nest_row_container:
  assumes ok: "state_ok st" and par: "isParent node nextNode"
  shows "\<exists>st' q props'.
           nest_row node nextNode st = Inr st' \<and> state_ok st'
           \<and> stack st' = (length (heap st), depth node) # pop_stack (depth node) (stack st)
           \<and> heap st' = (heap st @ [HObject ObjectPrototype []])
                           [target (depth node) (stack st) := HObject q props']
           \<and> set props' \<subseteq> insert (key node, Ref (length (heap st)))
                                   (set (props_of (heap st ! target (depth node) (stack st))))
           \<and> (key node \<noteq> ''__proto__'' \<longrightarrow>
                props' = put_own (key node) (Ref (length (heap st)))
                           (props_of (heap st ! target (depth node) (stack st))))"
proof -
  let ?h = "heap st" and ?t = "target (depth node) (stack st)"
  let ?h1 = "?h @ [HObject ObjectPrototype []]"
  from ok have h: "heap_ok ?h" and s: "stack_ok ?h (stack st)" by (simp_all add: state_ok_def)
  from target_ok [OF s, of "depth node"] obtain pd below where
    t: "pop_stack (depth node) (stack st) = (?t, pd) # below" "?t < length ?h"
       "stack_ok ?h (pop_stack (depth node) (stack st))"
    by blast
  have h1: "heap_ok ?h1" by (rule heap_ok_alloc [OF h])
  from t(2) have a: "?t < length ?h1" "ref_ok (length ?h1) ?t (Ref (length ?h))" by simp_all
  have fresh: "\<And>b. Ref (length ?h) = Ref b \<Longrightarrow> ?h1 ! b = HObject ObjectPrototype []" by auto
  from attach_ok [OF h1 a fresh, of "key node"] obtain h' q props' where
    at: "attach ?h1 ?t (key node) (Ref (length ?h)) = Inr h'" "heap_ok h'"
        "length h' = length ?h1" "h' = ?h1[?t := HObject q props']"
        "set props' \<subseteq> insert (key node, Ref (length ?h)) (set (props_of (?h1 ! ?t)))"
        "key node \<noteq> ''__proto__'' \<longrightarrow>
           props' = put_own (key node) (Ref (length ?h)) (props_of (?h1 ! ?t))"
    by blast
  from t(2) have same: "?h1 ! ?t = ?h ! ?t" by (simp add: nth_append)
  let ?st' = "\<lparr>heap = h', stack = (length ?h, depth node) # pop_stack (depth node) (stack st)\<rparr>"
  from par t at have r: "nest_row node nextNode st = Inr ?st'"
    by (simp add: nest_row_def Let_def)
  from t(1,3) at(3) have "stack_ok h' ((length ?h, depth node) # pop_stack (depth node) (stack st))"
    by (auto simp: stack_ok_def)
  with at(2) have "state_ok ?st'" by (simp add: state_ok_def)
  with r at(4,5,6) same show ?thesis by auto
qed

lemma nest_row_leaf:
  assumes ok: "state_ok st" and par: "\<not> isParent node nextNode"
  shows "\<exists>st' q props'.
           nest_row node nextNode st = Inr st' \<and> state_ok st'
           \<and> stack st' = pop_stack (depth node) (stack st)
           \<and> heap st' = (heap st)[target (depth node) (stack st) := HObject q props']
           \<and> set props' \<subseteq> insert (key node, Val (val node))
                                   (set (props_of (heap st ! target (depth node) (stack st))))
           \<and> (key node \<noteq> ''__proto__'' \<longrightarrow>
                props' = put_own (key node) (Val (val node))
                           (props_of (heap st ! target (depth node) (stack st))))"
proof -
  let ?h = "heap st" and ?t = "target (depth node) (stack st)"
  from ok have h: "heap_ok ?h" and s: "stack_ok ?h (stack st)" by (simp_all add: state_ok_def)
  from target_ok [OF s, of "depth node"] obtain pd below where
    t: "pop_stack (depth node) (stack st) = (?t, pd) # below" "?t < length ?h"
       "stack_ok ?h (pop_stack (depth node) (stack st))"
    by blast
  have x: "ref_ok (length ?h) ?t (Val (val node))" by simp
  have fresh: "\<And>b. Val (val node) = Ref b \<Longrightarrow> ?h ! b = HObject ObjectPrototype []" by simp
  from attach_ok [OF h t(2) x fresh, of "key node"] obtain h' q props' where
    at: "attach ?h ?t (key node) (Val (val node)) = Inr h'" "heap_ok h'"
        "length h' = length ?h" "h' = ?h[?t := HObject q props']"
        "set props' \<subseteq> insert (key node, Val (val node)) (set (props_of (?h ! ?t)))"
        "key node \<noteq> ''__proto__'' \<longrightarrow>
           props' = put_own (key node) (Val (val node)) (props_of (?h ! ?t))"
    by blast
  let ?st' = "\<lparr>heap = h', stack = pop_stack (depth node) (stack st)\<rparr>"
  from par t at have r: "nest_row node nextNode st = Inr ?st'"
    by (simp add: nest_row_def Let_def)
  from t(3) at(3) have "stack_ok h' (pop_stack (depth node) (stack st))"
    by (auto simp: stack_ok_def)
  with at(2) have "state_ok ?st'" by (simp add: state_ok_def)
  with r at(4,5,6) show ?thesis by auto
qed

lemma nest_row_ok:
  "state_ok st \<Longrightarrow> \<exists>st'. nest_row node nextNode st = Inr st' \<and> state_ok st'"
  using nest_row_container [of st node nextNode] nest_row_leaf [of st node nextNode]
  by (cases "isParent node nextNode") blast+

lemma nest_loop_ok:
  "state_ok st \<Longrightarrow> \<exists>st'. nest_loop nodes st = Inr st' \<and> state_ok st'"
proof (induction nodes arbitrary: st)
  case Nil
  then show ?case by simp
next
  case (Cons node rest)
  from nest_row_ok [OF Cons.prems]
  obtain st1 where "nest_row node (case rest of [] \<Rightarrow> None | nx # after \<Rightarrow> Some nx) st = Inr st1"
    "state_ok st1" by blast
  with Cons.IH [of st1] show ?case by simp
qed

lemma init_state_ok: "state_ok init_state"
  by (simp add: init_state_def state_ok_def heap_ok_def stack_ok_def)

lemma those_map_total:
  "(\<And>x. x \<in> set xs \<Longrightarrow> \<exists>y. f x = Some y) \<Longrightarrow> \<exists>ys. those (map f xs) = Some ys"
  by (induction xs) fastforce+

lemma reify_total:
  "heap_ok h \<Longrightarrow> a < length h \<Longrightarrow> length h \<le> fuel + a
     \<Longrightarrow> \<exists>ms. reify fuel h (Ref a) = Some (JObj ms)"
proof (induction fuel arbitrary: a)
  case 0
  then show ?case by simp
next
  case (Suc fuel)
  from Suc.prems have c: "cell_ok (length h) a (h ! a)" by (simp add: heap_ok_def)
  then obtain p props where ob: "h ! a = HObject p props" by (cases "h ! a") auto
  have "\<exists>y. (case e of (k, x) \<Rightarrow> map_option (Pair k) (reify fuel h x)) = Some y"
    if e: "e \<in> set props" for e
  proof -
    obtain k x where kx: "e = (k, x)" by (cases e)
    with e c ob have r: "ref_ok (length h) a x" by force
    show ?thesis
    proof (cases x)
      case (Val v)
      with kx show ?thesis by simp
    next
      case (Ref b)
      with r have b: "a < b" "b < length h" by auto
      with Suc.prems(3) have "length h \<le> fuel + b" by simp
      from Suc.IH [OF Suc.prems(1) b(2) this] Ref kx show ?thesis by auto
    qed
  qed
  then have "\<exists>y. (case e of (k, x) \<Rightarrow> map_option (Pair k) (reify fuel h x)) = Some y"
    if "e \<in> set (own_keys_order props)" for e
    using that by (simp add: set_own_keys_order)
  from those_map_total
         [of "own_keys_order props" "\<lambda>(k, x). map_option (Pair k) (reify fuel h x)", OF this]
  obtain ms where
    "those (map (\<lambda>(k, x). map_option (Pair k) (reify fuel h x)) (own_keys_order props)) = Some ms"
    by blast
  with ob Suc.prems(2) show ?case by simp
qed

lemma nestJson_total: "\<exists>ms. nestJson nodes = Inr (JObj ms)"
proof (cases "length nodes = 0")
  case True
  then show ?thesis by (simp add: nestJson_def)
next
  case False
  from nest_loop_ok [OF init_state_ok, of nodes]
  obtain st where st: "nest_loop nodes init_state = Inr st" "state_ok st" by blast
  then have h: "heap_ok (heap st)" and s: "stack_ok (heap st) (stack st)"
    by (simp_all add: state_ok_def)
  from s have "(0, - 1) \<in> set (stack st)"
    unfolding stack_ok_def using last_in_set [of "stack st"] by auto
  with s have "0 < length (heap st)" unfolding stack_ok_def by force
  from reify_total [OF h this, of "length (heap st)"]
  obtain ms where "reify (length (heap st)) (heap st) (Ref 0) = Some (JObj ms)" by auto
  with st False show ?thesis by (simp add: nestJson_def)
qed


lemma run_state_ok: "run_state st \<Longrightarrow> state_ok st"
proof (induction rule: run_state.induct)
  case init
  show ?case by (rule init_state_ok)
next
  case (step st node nextNode st')
  from nest_row_ok [OF step.IH, of node nextNode] step.hyps(2) show ?case by auto
qed

lemma nest_loop_run: "run_state st \<Longrightarrow> nest_loop nodes st = Inr st' \<Longrightarrow> run_state st'"
proof (induction nodes arbitrary: st)
  case Nil
  then show ?case by simp
next
  case (Cons node rest)
  then show ?case
    by (auto split: sum.splits intro: run_state.step)
qed

lemma nest_loop_reaches:
  "run_state st \<Longrightarrow> \<exists>st1. run_state st1 \<and> nest_loop (pre @ rest) st = nest_loop rest st1"
proof (induction pre arbitrary: st)
  case Nil
  then show ?case by auto
next
  case (Cons n pre)
  let ?la = "case pre @ rest of [] \<Rightarrow> None | nx # after \<Rightarrow> Some nx"
  from nest_row_ok [OF run_state_ok [OF Cons.prems], of n ?la]
  obtain st' where r: "nest_row n ?la st = Inr st'" by blast
  with Cons.prems have "run_state st'" by (rule run_state.step)
  from Cons.IH [OF this] r show ?case by simp
qed

lemma state_ok_cells:
  assumes "state_ok st"
  shows "\<forall>a < length (heap st). \<exists>p props. heap st ! a = HObject p props"
proof (intro allI impI)
  fix a assume "a < length (heap st)"
  with assms have "cell_ok (length (heap st)) a (heap st ! a)"
    by (simp add: state_ok_def heap_ok_def)
  then show "\<exists>p props. heap st ! a = HObject p props" by (cases "heap st ! a") auto
qed



lemma vals_ok_update:
  assumes v: "vals_ok h" and sub: "set props' \<subseteq> insert (k, x) (set (props_of (h ! t)))"
    and t: "t < length h" and x: "\<And>v. x = Val v \<Longrightarrow> no_array v"
  shows "vals_ok (h[t := HObject q props'])"
proof -
  from t have m: "h ! t \<in> set h" by simp
  have "\<forall>y \<in> snd ` set props'. \<forall>v. y = Val v \<longrightarrow> no_array v"
  proof (intro ballI allI impI)
    fix y v assume y: "y \<in> snd ` set props'" "y = Val v"
    then obtain k' where "(k', y) \<in> set props'" by force
    with sub have "(k', y) = (k, x) \<or> (k', y) \<in> set (props_of (h ! t))" by auto
    then show "no_array v"
    proof
      assume "(k', y) = (k, x)"
      with y x show ?thesis by simp
    next
      assume "(k', y) \<in> set (props_of (h ! t))"
      then have "y \<in> snd ` set (props_of (h ! t))" by force
      with v m y show ?thesis unfolding vals_ok_def by blast
    qed
  qed
  with v show ?thesis
    unfolding vals_ok_def using set_update_subset_insert [of h t "HObject q props'"] by auto
qed

lemma vals_ok_alloc: "vals_ok h \<Longrightarrow> vals_ok (h @ [HObject ObjectPrototype []])"
  by (simp add: vals_ok_def)

lemma nest_row_vals:
  assumes ok: "state_ok st" and v: "vals_ok (heap st)" and n: "no_array (val node)"
    and r: "nest_row node nextNode st = Inr st'"
  shows "vals_ok (heap st')"
proof -
  from ok have s: "stack_ok (heap st) (stack st)" by (simp add: state_ok_def)
  from target_ok [OF s, of "depth node"]
  have t: "target (depth node) (stack st) < length (heap st)" by blast
  show ?thesis
  proof (cases "isParent node nextNode")
    case True
    from nest_row_container [OF ok True] r obtain q props' where
      c: "heap st' = (heap st @ [HObject ObjectPrototype []])
                           [target (depth node) (stack st) := HObject q props']"
         "set props' \<subseteq> insert (key node, Ref (length (heap st)))
                                   (set (props_of (heap st ! target (depth node) (stack st))))"
      by auto
    from t have same: "(heap st @ [HObject ObjectPrototype []]) ! target (depth node) (stack st)
        = heap st ! target (depth node) (stack st)" by (simp add: nth_append)
    from t have t1: "target (depth node) (stack st) < length (heap st @ [HObject ObjectPrototype []])"
      by simp
    from vals_ok_update [OF vals_ok_alloc [OF v] _ t1, of props' "key node" "Ref (length (heap st))" q]
      c same show ?thesis by simp
  next
    case False
    from nest_row_leaf [OF ok False] r obtain q props' where
      c: "heap st' = (heap st)[target (depth node) (stack st) := HObject q props']"
         "set props' \<subseteq> insert (key node, Val (val node))
                                   (set (props_of (heap st ! target (depth node) (stack st))))"
      by auto
    from vals_ok_update [OF v c(2) t, of q] n c(1) show ?thesis by simp
  qed
qed

lemma nest_loop_vals:
  "state_ok st \<Longrightarrow> vals_ok (heap st) \<Longrightarrow> \<forall>n \<in> set nodes. no_array (val n)
     \<Longrightarrow> nest_loop nodes st = Inr st' \<Longrightarrow> vals_ok (heap st')"
proof (induction nodes arbitrary: st)
  case Nil
  then show ?case by simp
next
  case (Cons node rest)
  let ?nx = "case rest of [] \<Rightarrow> None | nx # after \<Rightarrow> Some nx"
  from nest_row_ok [OF Cons.prems(1), of node ?nx] obtain st1 where
    r: "nest_row node ?nx st = Inr st1" "state_ok st1" by blast
  from Cons.prems(3) have n: "no_array (val node)" "\<forall>n \<in> set rest. no_array (val n)" by simp_all
  from nest_row_vals [OF Cons.prems(1,2) n(1) r(1)] have v1: "vals_ok (heap st1)" .
  from Cons.prems(4) r(1) have "nest_loop rest st1 = Inr st'" by simp
  from Cons.IH [OF r(2) v1 n(2) this] show ?case .
qed

lemma those_map_mem:
  "those (map f xs) = Some ys \<Longrightarrow> y \<in> set ys \<Longrightarrow> \<exists>x \<in> set xs. f x = Some y"
proof (induction xs arbitrary: ys)
  case Nil
  then show ?case by simp
next
  case (Cons x xs)
  then show ?case by (auto split: option.splits)
qed

lemma reify_no_array:
  "heap_ok h \<Longrightarrow> vals_ok h \<Longrightarrow> reify fuel h (Ref a) = Some j \<Longrightarrow> no_array j"
proof (induction fuel arbitrary: a j)
  case 0
  then show ?case by simp
next
  case (Suc fuel)
  from Suc.prems(3) have a: "a < length h" by (simp split: if_splits)
  with Suc.prems(1) have "cell_ok (length h) a (h ! a)" by (simp add: heap_ok_def)
  then obtain p props where ob: "h ! a = HObject p props" by (cases "h ! a") auto
  with Suc.prems(3) a obtain ms where
    ms: "those (map (\<lambda>(k, x). map_option (Pair k) (reify fuel h x)) (own_keys_order props))
           = Some ms"
        "j = JObj ms"
    by auto
  have "no_array v" if "v \<in> snd ` set ms" for v
  proof -
    from that obtain k where "(k, v) \<in> set ms" by force
    from those_map_mem [OF ms(1) this] obtain e where
      e: "e \<in> set props" "(case e of (k, x) \<Rightarrow> map_option (Pair k) (reify fuel h x)) = Some (k, v)"
      by (auto simp: set_own_keys_order)
    obtain k' x where kx: "e = (k', x)" by (cases e)
    with e have rx: "reify fuel h x = Some v" by auto
    show ?thesis
    proof (cases x)
      case (Val w)
      from a ob have "HObject p props \<in> set h" by (metis nth_mem)
      with Suc.prems(2) e(1) kx Val have "no_array w"
        unfolding vals_ok_def by force
      with rx Val show ?thesis by simp
    next
      case (Ref b)
      with rx Suc.IH [OF Suc.prems(1,2)] show ?thesis by simp
    qed
  qed
  with ms(2) show ?case by simp
qed

lemma nestJson_no_array:
  assumes "\<forall>n \<in> set nodes. no_array (val n)" and "nestJson nodes = Inr r"
  shows "no_array r"
proof (cases "length nodes = 0")
  case True
  with assms(2) show ?thesis by (auto simp: nestJson_def)
next
  case False
  from nest_loop_ok [OF init_state_ok, of nodes]
  obtain st where st: "nest_loop nodes init_state = Inr st" "state_ok st" by blast
  have "vals_ok (heap init_state)" by (simp add: vals_ok_def init_state_def)
  from nest_loop_vals [OF init_state_ok this assms(1) st(1)] have v: "vals_ok (heap st)" .
  from st(2) have h: "heap_ok (heap st)" by (simp add: state_ok_def)
  from assms(2) False st(1) have "reify (length (heap st)) (heap st) (Ref 0) = Some r"
    by (simp add: nestJson_def split: option.splits)
  from reify_no_array [OF h v this] show ?thesis .
qed

lemma handleRowChange_payloads:
  assumes "\<forall>n \<in> set (flatNodes doc). no_array (val n)"
  shows "\<forall>n \<in> set (handleRowChange doc i v ty). no_array (val n)"
  using assms by (cases ty) (auto simp: handleRowChange_def)

text \<open>
  Claim C10. In every state of a run, every object of the store, and so the object of
  every stack entry and the insertion target of every row, is a plain object and not an
  array: the two \<^verbatim>\<open>parent.push\<close> branches are never taken. The value returned is an
  object, and it contains no array when no row carries one as its payload. The payload of
  a row is a string, a number, a boolean or \<^verbatim>\<open>null\<close>: \<open>flattenJson\<close> emits no other
  (\<open>flatten_payloads_scalar\<close>) and an edit stores a string (\<open>handleRowChange_payloads\<close>);
  so nesting the rows of any JSON value gives a value without arrays.
\<close>

theorem nestJson_creates_no_array:
  "(\<exists>ms. nestJson nodes = Inr (JObj ms))
   \<and> ((\<forall>n \<in> set nodes. no_array (val n)) \<longrightarrow> (\<exists>r. nestJson nodes = Inr r \<and> no_array r))
   \<and> (\<exists>r. nestJson (fst (flattenJson rnd v d s)) = Inr r \<and> no_array r)
   \<and> (run_state st \<longrightarrow>
        (\<forall>a < length (heap st). \<exists>p props. heap st ! a = HObject p props)
        \<and> (\<forall>e \<in> set (stack st). \<exists>p props. heap st ! fst e = HObject p props)
        \<and> (\<exists>p props. heap st ! target (depth node) (stack st) = HObject p props)
        \<and> (\<exists>p props. (heap st @ [HObject ObjectPrototype []]) ! target (depth node) (stack st)
                        = HObject p props))"
proof -
  have 1: "\<exists>ms. nestJson nodes = Inr (JObj ms)" by (rule nestJson_total)
  then have 2: "(\<forall>n \<in> set nodes. no_array (val n)) \<longrightarrow> (\<exists>r. nestJson nodes = Inr r \<and> no_array r)"
    using nestJson_no_array [of nodes] by blast
  have 3: "(\<forall>a < length (heap st). \<exists>p props. heap st ! a = HObject p props)
        \<and> (\<forall>e \<in> set (stack st). \<exists>p props. heap st ! fst e = HObject p props)
        \<and> (\<exists>p props. heap st ! target (depth node) (stack st) = HObject p props)
        \<and> (\<exists>p props. (heap st @ [HObject ObjectPrototype []]) ! target (depth node) (stack st)
                        = HObject p props)" if r: "run_state st"
  proof -
    from run_state_ok [OF r] have ok: "state_ok st" .
    note cells = state_ok_cells [OF ok]
    from ok have s: "stack_ok (heap st) (stack st)" by (simp add: state_ok_def)
    then have "\<forall>e \<in> set (stack st). fst e < length (heap st)" by (simp add: stack_ok_def)
    with cells have b: "\<forall>e \<in> set (stack st). \<exists>p props. heap st ! fst e = HObject p props"
      by blast
    from target_ok [OF s, of "depth node"]
    have t: "target (depth node) (stack st) < length (heap st)" by blast
    with cells have c: "\<exists>p props. heap st ! target (depth node) (stack st) = HObject p props"
      by blast
    with t have "\<exists>p props. (heap st @ [HObject ObjectPrototype []]) ! target (depth node) (stack st)
                        = HObject p props" by (simp add: nth_append)
    with cells b c show ?thesis by blast
  qed
  have 4: "\<exists>r. nestJson (fst (flattenJson rnd v d s)) = Inr r \<and> no_array r"
  proof -
    have "\<forall>n \<in> set (fst (flattenJson rnd v d s)). no_array (val n)"
      using flatten_payloads_scalar(2) by blast
    moreover from nestJson_total obtain ms where
      "nestJson (fst (flattenJson rnd v d s)) = Inr (JObj ms)" by blast
    ultimately show ?thesis
      using nestJson_no_array [of "fst (flattenJson rnd v d s)"] by blast
  qed
  from 1 2 3 4 show ?thesis by blast
qed


lemma isParent_val [simp]: "isParent (A\<lparr>val := v\<rparr>) nextNode = isParent A nextNode"
  by (cases nextNode) (simp_all add: isParent_def)

lemma nest_row_container_val:
  "isParent A nextNode \<Longrightarrow> nest_row (A\<lparr>val := v\<rparr>) nextNode st = nest_row A nextNode st"
  by (simp add: nest_row_def Let_def split: list.splits prod.splits sum.splits)

text \<open>
  What holds of the statement of claim C2 (the claim itself fails at the key
  \<^verbatim>\<open>__proto__\<close>, as evaluated further below): whether a row is a
  container is decided by the row after it, not by its payload. In every state of a run, when row \<open>B\<close> follows row \<open>A\<close> and is deeper, the
  loop body creates a new empty object, assigns it to the property \<open>key A\<close> of the
  insertion target of \<open>A\<close> (so that, for a key other than \<^verbatim>\<open>__proto__\<close>, the target
  holds the new object under that key) and pushes it; the payload of \<open>A\<close> is not used (any
  other payload gives the same state); the insertion target of \<open>B\<close> is the new object, and
  \<open>B\<close> is attached inside it. When no row follows \<open>A\<close>, or the next row is not deeper, no
  object is created, and the payload of \<open>A\<close> is assigned to the property \<open>key A\<close> of the
  insertion target. The run on any list of rows in which \<open>B\<close> follows \<open>A\<close> reaches \<open>A\<close>
  in such a state and continues with \<open>B\<close> from the state that the body yields.
\<close>

lemma container_by_lookahead:
  "(run_state st \<and> depth A < depth B \<longrightarrow>
      (\<exists>st1 st2.
          nest_row A (Some B) st = Inr st1
        \<and> nest_row (A\<lparr>val := v\<rparr>) (Some B) st = Inr st1
        \<and> length (heap st1) = Suc (length (heap st))
        \<and> heap st1 ! length (heap st) = HObject ObjectPrototype []
        \<and> attach (heap st @ [HObject ObjectPrototype []]) (target (depth A) (stack st)) (key A)
              (Ref (length (heap st))) = Inr (heap st1)
        \<and> (key A \<noteq> ''__proto__'' \<longrightarrow>
              map_of (props_of (heap st1 ! target (depth A) (stack st))) (key A)
                = Some (Ref (length (heap st))))
        \<and> stack st1 = (length (heap st), depth A) # pop_stack (depth A) (stack st)
        \<and> target (depth B) (stack st1) = length (heap st)
        \<and> nest_loop (A # B # rest) st = nest_loop (B # rest) st1
        \<and> nest_row B nextNode st1 = Inr st2
        \<and> (key B \<noteq> ''__proto__'' \<longrightarrow>
              props_of (heap st2 ! length (heap st))
                = [(key B, if isParent B nextNode then Ref (Suc (length (heap st)))
                           else Val (val B))])))
   \<and> (run_state st \<and> (nextNode = None \<or> (\<exists>C. nextNode = Some C \<and> depth C \<le> depth A)) \<longrightarrow>
      (\<exists>st1.
          nest_row A nextNode st = Inr st1
        \<and> length (heap st1) = length (heap st)
        \<and> attach (heap st) (target (depth A) (stack st)) (key A) (Val (val A)) = Inr (heap st1)
        \<and> (key A \<noteq> ''__proto__'' \<longrightarrow>
              map_of (props_of (heap st1 ! target (depth A) (stack st))) (key A)
                = Some (Val (val A)))
        \<and> stack st1 = pop_stack (depth A) (stack st)))
   \<and> (depth A < depth B \<longrightarrow>
      (\<exists>st st1.
          run_state st
        \<and> nest_row A (Some B) st = Inr st1
        \<and> nest_loop (pre @ A # B # post) init_state = nest_loop (B # post) st1))"
proof -
  have 1: "\<exists>st1 st2.
          nest_row A (Some B) st = Inr st1
        \<and> nest_row (A\<lparr>val := v\<rparr>) (Some B) st = Inr st1
        \<and> length (heap st1) = Suc (length (heap st))
        \<and> heap st1 ! length (heap st) = HObject ObjectPrototype []
        \<and> attach (heap st @ [HObject ObjectPrototype []]) (target (depth A) (stack st)) (key A)
              (Ref (length (heap st))) = Inr (heap st1)
        \<and> (key A \<noteq> ''__proto__'' \<longrightarrow>
              map_of (props_of (heap st1 ! target (depth A) (stack st))) (key A)
                = Some (Ref (length (heap st))))
        \<and> stack st1 = (length (heap st), depth A) # pop_stack (depth A) (stack st)
        \<and> target (depth B) (stack st1) = length (heap st)
        \<and> nest_loop (A # B # rest) st = nest_loop (B # rest) st1
        \<and> nest_row B nextNode st1 = Inr st2
        \<and> (key B \<noteq> ''__proto__'' \<longrightarrow>
              props_of (heap st2 ! length (heap st))
                = [(key B, if isParent B nextNode then Ref (Suc (length (heap st)))
                           else Val (val B))])"
    if r: "run_state st" and d: "depth A < depth B"
  proof -
    let ?n = "length (heap st)" and ?t = "target (depth A) (stack st)"
    from run_state_ok [OF r] have ok: "state_ok st" .
    then have s: "stack_ok (heap st) (stack st)" by (simp add: state_ok_def)
    from target_ok [OF s, of "depth A"] obtain pd below where
      t: "pop_stack (depth A) (stack st) = (?t, pd) # below" "?t < ?n" by blast
    from d have par: "isParent A (Some B)" by (simp add: isParent_def)
    from nest_row_container [OF ok par] obtain st1 q props' where
      c: "nest_row A (Some B) st = Inr st1" "state_ok st1"
         "stack st1 = (?n, depth A) # pop_stack (depth A) (stack st)"
         "heap st1 = (heap st @ [HObject ObjectPrototype []])[?t := HObject q props']"
         "key A \<noteq> ''__proto__'' \<longrightarrow> props' = put_own (key A) (Ref ?n) (props_of (heap st ! ?t))"
      by blast
    from c(4) t(2) have new: "length (heap st1) = Suc ?n" "heap st1 ! ?n = HObject ObjectPrototype []"
      by (simp_all add: nth_append)
    from c(1) par t have at: "attach (heap st @ [HObject ObjectPrototype []]) ?t (key A) (Ref ?n)
        = Inr (heap st1)"
      by (auto simp: nest_row_def Let_def split: sum.splits)
    from c(4,5) t(2) have own: "key A \<noteq> ''__proto__'' \<longrightarrow>
        map_of (props_of (heap st1 ! ?t)) (key A) = Some (Ref ?n)"
      by (simp add: map_of_put_own)
    from c(3) d have tb: "pop_stack (depth B) (stack st1) = stack st1"
      by (simp add: pop_stack_push)
    with c(3) have tB: "target (depth B) (stack st1) = ?n" by (simp add: target_def)
    from c(1) have loop: "nest_loop (A # B # rest) st = nest_loop (B # rest) st1" by simp
    have "\<exists>st2. nest_row B nextNode st1 = Inr st2
        \<and> (key B \<noteq> ''__proto__'' \<longrightarrow>
              props_of (heap st2 ! ?n)
                = [(key B, if isParent B nextNode then Ref (Suc ?n) else Val (val B))])"
    proof (cases "isParent B nextNode")
      case True
      from nest_row_container [OF c(2) True] tB new obtain st2 q2 props2 where
        b: "nest_row B nextNode st1 = Inr st2"
           "heap st2 = (heap st1 @ [HObject ObjectPrototype []])[?n := HObject q2 props2]"
           "key B \<noteq> ''__proto__'' \<longrightarrow> props2 = put_own (key B) (Ref (Suc ?n)) []"
        by auto
      with True new show ?thesis by auto
    next
      case False
      from nest_row_leaf [OF c(2) False] tB new obtain st2 q2 props2 where
        b: "nest_row B nextNode st1 = Inr st2"
           "heap st2 = (heap st1)[?n := HObject q2 props2]"
           "key B \<noteq> ''__proto__'' \<longrightarrow> props2 = put_own (key B) (Val (val B)) []"
        by auto
      with False new show ?thesis by auto
    qed
    with c(1,3) nest_row_container_val [OF par, of v st] new at own tB loop
    show ?thesis by auto
  qed
  have 2: "\<exists>st1.
          nest_row A nextNode st = Inr st1
        \<and> length (heap st1) = length (heap st)
        \<and> attach (heap st) (target (depth A) (stack st)) (key A) (Val (val A)) = Inr (heap st1)
        \<and> (key A \<noteq> ''__proto__'' \<longrightarrow>
              map_of (props_of (heap st1 ! target (depth A) (stack st))) (key A)
                = Some (Val (val A)))
        \<and> stack st1 = pop_stack (depth A) (stack st)"
    if r: "run_state st" and nx: "nextNode = None \<or> (\<exists>C. nextNode = Some C \<and> depth C \<le> depth A)"
  proof -
    let ?n = "length (heap st)" and ?t = "target (depth A) (stack st)"
    from run_state_ok [OF r] have ok: "state_ok st" .
    then have s: "stack_ok (heap st) (stack st)" by (simp add: state_ok_def)
    from target_ok [OF s, of "depth A"] obtain pd below where
      t: "pop_stack (depth A) (stack st) = (?t, pd) # below" "?t < ?n" by blast
    from nx have par: "\<not> isParent A nextNode" by (auto simp: isParent_def)
    from nest_row_leaf [OF ok par] obtain st1 q props' where
      c: "nest_row A nextNode st = Inr st1"
         "stack st1 = pop_stack (depth A) (stack st)"
         "heap st1 = (heap st)[?t := HObject q props']"
         "key A \<noteq> ''__proto__'' \<longrightarrow> props' = put_own (key A) (Val (val A)) (props_of (heap st ! ?t))"
      by blast
    from c(1) par t have at: "attach (heap st) ?t (key A) (Val (val A)) = Inr (heap st1)"
      by (auto simp: nest_row_def Let_def split: sum.splits)
    from c(3,4) t(2) have own: "key A \<noteq> ''__proto__'' \<longrightarrow>
        map_of (props_of (heap st1 ! ?t)) (key A) = Some (Val (val A))"
      by (simp add: map_of_put_own)
    from c at own show ?thesis by auto
  qed
  have 3: "\<exists>st st1.
          run_state st
        \<and> nest_row A (Some B) st = Inr st1
        \<and> nest_loop (pre @ A # B # post) init_state = nest_loop (B # post) st1"
  proof -
    from nest_loop_reaches [OF run_state.init, of pre "A # B # post"] obtain st where
      st: "run_state st" "nest_loop (pre @ A # B # post) init_state = nest_loop (A # B # post) st"
      by blast
    from nest_row_ok [OF run_state_ok [OF st(1)], of A "Some B"] obtain st1 where
      "nest_row A (Some B) st = Inr st1" by blast
    with st show ?thesis by auto
  qed
  from 1 2 3 show ?thesis by blast
qed


section \<open>Examples and round trips\<close>

lemmas nest_eval =
  nestJson_def init_state_def nest_row_def isParent_def attach_def assign_prop_def
  set_prototype_def mk_node_def Let_def target_def
  own_keys_order_plain not_index_first is_digit_simps

lemma jump_rows_nest:
  "nestJson jump_rows = Inr (JObj [(''a'', JObj [(''b'', JStr ''x''), (''c'', JNum 1)])])"
  by (simp add: jump_rows_def nest_eval numeral_2_eq_2)

lemma valued_rows_nest:
  "nestJson valued_rows = Inr (JObj [(''a'', JObj [(''b'', JStr ''x'')])])"
  by (simp add: valued_rows_def nest_eval numeral_2_eq_2)


theorem nestJson_creates_no_array_witness:
  "list_all (\<lambda>n. no_array (val n)) jump_rows
   \<and> nestJson jump_rows = Inr (JObj [(''a'', JObj [(''b'', JStr ''x''), (''c'', JNum 1)])])
   \<and> no_array (JObj [(''a'', JObj [(''b'', JStr ''x''), (''c'', JNum 1)])])
   \<and> run_state init_state
   \<and> heap init_state ! target (depth (jump_rows ! 0)) (stack init_state)
        = HObject ObjectPrototype []"
  using nestJson_creates_no_array [where nodes = jump_rows and st = init_state and node = "jump_rows ! 0"]
        run_state.init jump_rows_nest
  by (simp add: jump_rows_def nest_eval)

lemma container_by_lookahead_example:
  "run_state init_state
   \<and> val (valued_rows ! 0) = JStr ''payload''
   \<and> depth (valued_rows ! 0) < depth (valued_rows ! 1)
   \<and> nest_row (valued_rows ! 0) (Some (valued_rows ! 1)) init_state
       = Inr \<lparr>heap = [HObject ObjectPrototype [(''a'', Ref 1)], HObject ObjectPrototype []],
              stack = [(1, 0), (0, - 1)]\<rparr>
   \<and> nest_row (valued_rows ! 1) None
         \<lparr>heap = [HObject ObjectPrototype [(''a'', Ref 1)], HObject ObjectPrototype []],
          stack = [(1, 0), (0, - 1)]\<rparr>
       = Inr \<lparr>heap = [HObject ObjectPrototype [(''a'', Ref 1)],
                      HObject ObjectPrototype [(''b'', Val (JStr ''x''))]],
              stack = [(1, 0), (0, - 1)]\<rparr>
   \<and> nestJson valued_rows = Inr (JObj [(''a'', JObj [(''b'', JStr ''x'')])])
   \<and> key (valued_rows ! 0) \<noteq> ''__proto__''
   \<and> nest_row (valued_rows ! 0) None init_state
       = Inr \<lparr>heap = [HObject ObjectPrototype [(''a'', Val (JStr ''payload''))]],
              stack = [(0, - 1)]\<rparr>"
  using container_by_lookahead
          [where st = init_state and A = "valued_rows ! 0" and B = "valued_rows ! 1"
             and v = "JStr ''''" and rest = "[]" and nextNode = None and pre = "[]" and post = "[]"]
        run_state.init valued_rows_nest
  by (simp add: valued_rows_def nest_eval)

lemma proto_rows_eval:
  "proto_container_rows =
     [\<lparr>nid = ''id0'', key = ''__proto__'', val = JStr ''payload'', depth = 0,
       originalLine = None, isMatch = Some False\<rparr>,
      mk_node ''id1'' ''b'' (JStr ''x'') 1]"
  "proto_leaf_rows =
     [\<lparr>nid = ''id0'', key = ''a'', val = JStr ''payload'', depth = 0,
       originalLine = None, isMatch = Some False\<rparr>,
      mk_node ''id1'' ''__proto__'' (JStr ''x'') 1]"
  by (simp_all add: proto_container_rows_def proto_leaf_rows_def doc_ab_def doc_aproto_def
        handleRowChange_def flattenJson.simps generateId_def rnd_demo_small mk_node_def
        checkMatch_def trim_def is_whitespace_def)

text \<open>
  Claim C2 fails at a row whose key is \<^verbatim>\<open>__proto__\<close>, by the defect of claim C1. The row
  \<^verbatim>\<open>__proto__\<close> with the payload \<^verbatim>\<open>payload\<close>, followed by a deeper row \<^verbatim>\<open>b\<close>, is
  treated as a container, but the new object is not attached under the row's key: the
  assignment \<^verbatim>\<open>root['__proto__'] = newObj\<close> makes it the prototype of the root, which
  keeps no property, and the result is the empty object. A leaf row \<^verbatim>\<open>__proto__\<close> that
  follows its container row \<^verbatim>\<open>a\<close> is not attached inside the container: the assignment
  of its string payload is ignored, and the container stays empty.
\<close>

theorem container_proto_key_not_attached:
  "map shape proto_container_rows = [(''__proto__'', JStr ''payload'', 0), (''b'', JStr ''x'', 1)]
   \<and> nest_row (proto_container_rows ! 0) (Some (proto_container_rows ! 1)) init_state
       = Inr \<lparr>heap = [HObject (ProtoRef 1) [], HObject ObjectPrototype []],
              stack = [(1, 0), (0, - 1)]\<rparr>
   \<and> nestJson proto_container_rows = Inr (JObj [])
   \<and> nestJson proto_container_rows \<noteq> Inr (JObj [(''__proto__'', JObj [(''b'', JStr ''x'')])])
   \<and> map shape proto_leaf_rows = [(''a'', JStr ''payload'', 0), (''__proto__'', JStr ''x'', 1)]
   \<and> nestJson proto_leaf_rows = Inr (JObj [(''a'', JObj [])])
   \<and> nestJson proto_leaf_rows \<noteq> Inr (JObj [(''a'', JObj [(''__proto__'', JStr ''x'')])])"
  by (simp add: proto_rows_eval nest_eval shape_def)

text \<open>An array index among the keys is enumerated first, whenever it was created.\<close>

lemma index_key_enumerated_first:
  "nestJson index_key_rows = Inr (JObj [(''1'', JStr ''y''), (''b'', JStr ''x'')])"
proof -
  have "own_keys_order [(''b'', Val (JStr ''x'')), (''1'', Val (JStr ''y''))]
      = [(''1'', Val (JStr ''y'')), (''b'', Val (JStr ''x''))]"
    by (simp add: own_keys_order_def is_array_index_def is_digit_simps nat_of_digits_def)
  then show ?thesis
    by (simp add: index_key_rows_def nestJson_def init_state_def nest_row_def isParent_def
          attach_def assign_prop_def mk_node_def)
qed

text \<open>
  Claim C7. Flattening the array \<^verbatim>\<open>["x", "y"]\<close> gives exactly the two leaf rows
  \<^verbatim>\<open>[0]\<close> and \<^verbatim>\<open>[1]\<close> at depth 0, with whatever identifiers the random source
  supplies, and nesting them gives the object with the keys \<^verbatim>\<open>[0]\<close> and \<^verbatim>\<open>[1]\<close>,
  which is not an array.
\<close>

theorem array_degrades_to_object:
  "fst (flattenJson rnd (JArr [JStr ''x'', JStr ''y'']) 0 s)
     = [mk_node (rnd s) ''[0]'' (JStr ''x'') 0, mk_node (rnd (Suc s)) ''[1]'' (JStr ''y'') 0]
   \<and> nestJson (fst (flattenJson rnd (JArr [JStr ''x'', JStr ''y'']) 0 s))
       = Inr (JObj [(''[0]'', JStr ''x''), (''[1]'', JStr ''y'')])
   \<and> \<not> isArray (JObj [(''[0]'', JStr ''x''), (''[1]'', JStr ''y'')])"
proof -
  have f: "fst (flattenJson rnd (JArr [JStr ''x'', JStr ''y'']) 0 s)
     = [mk_node (rnd s) ''[0]'' (JStr ''x'') 0, mk_node (rnd (Suc s)) ''[1]'' (JStr ''y'') 0]"
    by (simp add: flattenJson.simps generateId_def index_key_small)
  have n: "nestJson [mk_node (rnd s) ''[0]'' (JStr ''x'') 0, mk_node (rnd (Suc s)) ''[1]'' (JStr ''y'') 0]
       = Inr (JObj [(''[0]'', JStr ''x''), (''[1]'', JStr ''y'')])"
    by (simp add: nest_eval)
  from f n show ?thesis by simp
qed

theorem array_degrades_to_object_witness:
  "fst (flattenJson rnd_demo (JArr [JStr ''x'', JStr ''y'']) 0 0)
     = [mk_node ''id0'' ''[0]'' (JStr ''x'') 0, mk_node ''id1'' ''[1]'' (JStr ''y'') 0]
   \<and> nestJson [mk_node ''id0'' ''[0]'' (JStr ''x'') 0, mk_node ''id1'' ''[1]'' (JStr ''y'') 0]
       = Inr (JObj [(''[0]'', JStr ''x''), (''[1]'', JStr ''y'')])"
  using array_degrades_to_object [of rnd_demo 0]
  by (simp add: rnd_demo_small nest_eval)

text \<open>
  Claim C1 fails for an object with a member named \<^verbatim>\<open>__proto__\<close>. \<^verbatim>\<open>JSON.parse\<close>
  creates the member as an own property, \<open>flattenJson\<close> emits its row, and in \<open>nestJson\<close>
  the assignment \<^verbatim>\<open>parent['__proto__'] = 'x'\<close> calls the inherited setter, which ignores
  a string: the result is the empty object.
\<close>

theorem flat_object_proto_not_restored:
  "map shape (fst (flattenJson rnd_demo (JObj [(''__proto__'', JStr ''x'')]) 0 0))
     = [(''__proto__'', JStr ''x'', 0)]
   \<and> nestJson (fst (flattenJson rnd_demo (JObj [(''__proto__'', JStr ''x'')]) 0 0))
       = Inr (JObj [])
   \<and> nestJson (fst (flattenJson rnd_demo (JObj [(''__proto__'', JStr ''x'')]) 0 0))
       \<noteq> Inr (JObj [(''__proto__'', JStr ''x'')])"
  by (simp add: flattenJson.simps generateId_def nest_eval shape_def)


section \<open>Identifiers and determinism\<close>

lemma nest_row_shape:
  "shape n = shape n' \<Longrightarrow> map_option shape nx = map_option shape nx'
     \<Longrightarrow> nest_row n nx st = nest_row n' nx' st"
  by (cases nx; cases nx')
     (simp_all add: nest_row_def isParent_def shape_def Let_def
               split: list.splits prod.splits sum.splits)

lemma nest_loop_shape:
  "map shape ns = map shape ns' \<Longrightarrow> nest_loop ns st = nest_loop ns' st"
proof (induction ns arbitrary: ns' st)
  case Nil
  then show ?case by simp
next
  case (Cons n rest)
  then obtain n' rest' where ns': "ns' = n' # rest'" "shape n = shape n'"
      "map shape rest = map shape rest'"
    by (cases ns') auto
  from ns'(3) have "map_option shape (case rest of [] \<Rightarrow> None | nx # after \<Rightarrow> Some nx)
      = map_option shape (case rest' of [] \<Rightarrow> None | nx # after \<Rightarrow> Some nx)"
    by (cases rest; cases rest') auto
  from nest_row_shape [OF ns'(2) this] Cons.IH [OF ns'(3)] ns'(1) show ?case
    by (simp split: sum.splits)
qed

lemma nestJson_shape:
  assumes "map shape ns = map shape ns'"
  shows "nestJson ns = nestJson ns'"
proof -
  from assms have "length ns = length ns'" by (rule map_eq_imp_length_eq)
  with nest_loop_shape [OF assms] show ?thesis by (simp add: nestJson_def)
qed

lemma unset_mk_node [simp]: "unset (mk_node i k v d)"
  by (simp add: unset_def mk_node_def)

lemma flatten_unset:
  "list_all unset (fst (flattenJson rnd data d s))"
  "list_all unset (fst (forEach_item rnd items index d nodes s)) = list_all unset nodes"
  "list_all unset (fst (forEach_key rnd members d nodes s)) = list_all unset nodes"
proof (induction rnd data d s and rnd items index d nodes s and rnd members d nodes s
       rule: flattenJson_forEach_item_forEach_key.induct)
  case (1 rnd data d s)
  then show ?case by (cases data) (simp_all add: flattenJson.simps)
next
  case (2 rnd index d nodes s)
  show ?case by simp
next
  case (3 rnd item rest index d nodes s)
  show ?case
  proof (cases "typeof item = ''object''")
    case True
    obtain sub s2 where f: "flattenJson rnd item (d + 1) (Suc s) = (sub, s2)"
      by (cases "flattenJson rnd item (d + 1) (Suc s)")
    from 3(1) [OF True, of "rnd s" "Suc s"] f
    have a: "list_all unset sub"
      by (simp add: generateId_def)
    from 3(2) [OF True, of "rnd s" "Suc s" sub s2] f
    have b: "list_all unset (fst (forEach_item rnd rest (Suc index) d
                ((nodes @ [mk_node (rnd s) (index_key index) (JStr '''') d]) @ sub) s2))
             = list_all unset ((nodes @ [mk_node (rnd s) (index_key index) (JStr '''') d]) @ sub)"
      by (simp add: generateId_def)
    from True f a b show ?thesis
      by (simp add: generateId_def)
  next
    case False
    from 3(3) [OF False, of "rnd s" "Suc s"]
    have b: "list_all unset (fst (forEach_item rnd rest (Suc index) d
                (nodes @ [mk_node (rnd s) (index_key index) item d]) (Suc s)))
             = list_all unset (nodes @ [mk_node (rnd s) (index_key index) item d])"
      by (simp add: generateId_def)
    from False b show ?thesis
      by (simp add: generateId_def)
  qed
next
  case (4 rnd d nodes s)
  show ?case by simp
next
  case (5 rnd k v rest d nodes s)
  show ?case
  proof (cases "typeof v = ''object'' \<and> v \<noteq> JNull")
    case True
    obtain sub s2 where f: "flattenJson rnd v (d + 1) (Suc s) = (sub, s2)"
      by (cases "flattenJson rnd v (d + 1) (Suc s)")
    from 5(1) [OF True, of "rnd s" "Suc s"] f
    have a: "list_all unset sub"
      by (simp add: generateId_def)
    from 5(2) [OF True, of "rnd s" "Suc s" sub s2] f
    have b: "list_all unset (fst (forEach_key rnd rest d
                ((nodes @ [mk_node (rnd s) k (JStr '''') d]) @ sub) s2))
             = list_all unset ((nodes @ [mk_node (rnd s) k (JStr '''') d]) @ sub)"
      by (simp add: generateId_def)
    from True f a b show ?thesis
      by (simp add: generateId_def)
  next
    case False
    from 5(3) [OF False, of "rnd s" "Suc s"]
    have b: "list_all unset (fst (forEach_key rnd rest d
                (nodes @ [mk_node (rnd s) k v d]) (Suc s)))
             = list_all unset (nodes @ [mk_node (rnd s) k v d])"
      by (simp add: generateId_def)
    from False b show ?thesis
      by (cases "typeof v = ''object''") (simp_all add: generateId_def)
  qed
qed

lemma flatten_erase_id:
  "map (\<lambda>n. n\<lparr>nid := []\<rparr>) (fst (flattenJson rnd v d s))
     = map (\<lambda>(k, x, e). mk_node [] k x e) (rows v d)"
proof -
  have "n\<lparr>nid := []\<rparr> = (case shape n of (k, x, e) \<Rightarrow> mk_node [] k x e)"
    if "n \<in> set (fst (flattenJson rnd v d s))" for n
  proof -
    from flatten_unset(1) [of rnd v d s] that have "unset n" by (simp add: list_all_iff)
    then show ?thesis by (simp add: shape_def mk_node_def unset_def)
  qed
  then have "map (\<lambda>n. n\<lparr>nid := []\<rparr>) (fst (flattenJson rnd v d s))
     = map (\<lambda>n. case shape n of (k, x, e) \<Rightarrow> mk_node [] k x e) (fst (flattenJson rnd v d s))"
    by (intro map_cong) auto
  also have "\<dots> = map (\<lambda>(k, x, e). mk_node [] k x e) (map shape (fst (flattenJson rnd v d s)))"
    by (simp add: comp_def)
  finally show ?thesis by (simp only: flatten_rows(1))
qed

lemma nid_mk_node [simp]: "nid (mk_node i k v d) = i"
  by (simp add: mk_node_def)

lemma upt_cons_append:
  "[s ..< Suc s + n1 + n2] = s # [Suc s ..< Suc s + n1] @ [Suc s + n1 ..< Suc s + n1 + n2]"
proof -
  have "[s ..< Suc s + n1 + n2] = s # [Suc s ..< Suc s + n1 + n2]"
    by (rule upt_conv_Cons) simp
  moreover have "[Suc s ..< Suc s + n1 + n2] = [Suc s ..< Suc s + n1] @ [Suc s + n1 ..< Suc s + n1 + n2]"
    by (rule upt_add_eq_append) simp
  ultimately show ?thesis by (simp only:)
qed

lemma upt_cons_only: "[s ..< Suc s + n] = s # [Suc s ..< Suc s + n]"
  by (rule upt_conv_Cons) simp

lemma flatten_ids:
  "map nid (fst (flattenJson rnd data d s)) = map rnd [s ..< s + length (rows data d)]"
  "map nid (fst (forEach_item rnd items index d nodes s))
     = map nid nodes @ map rnd [s ..< s + length (item_rows items index d)]"
  "map nid (fst (forEach_key rnd members d nodes s))
     = map nid nodes @ map rnd [s ..< s + length (member_rows members d)]"
proof (induction rnd data d s and rnd items index d nodes s and rnd members d nodes s
       rule: flattenJson_forEach_item_forEach_key.induct)
  case (1 rnd data d s)
  then show ?case by (cases data) (simp_all add: flattenJson.simps)
next
  case (2 rnd index d nodes s)
  show ?case by simp
next
  case (3 rnd item rest index d nodes s)
  let ?n2 = "length (item_rows rest (Suc index) d)"
  show ?case
  proof (cases "typeof item = ''object''")
    case True
    let ?n1 = "length (rows item (d + 1))"
    obtain sub s2 where f: "flattenJson rnd item (d + 1) (Suc s) = (sub, s2)"
      by (cases "flattenJson rnd item (d + 1) (Suc s)")
    from flatten_count(1) [of rnd item "d + 1" "Suc s"] f
    have s2: "s2 = Suc s + ?n1" by simp
    from 3(1) [OF True, of "rnd s" "Suc s"] f
    have a: "map nid sub = map rnd [Suc s ..< Suc s + ?n1]"
      by (simp add: generateId_def del: upt_Suc)
    from 3(2) [OF True, of "rnd s" "Suc s" sub s2] f s2
    have b: "map nid (fst (forEach_item rnd rest (Suc index) d
                ((nodes @ [mk_node (rnd s) (index_key index) (JStr '''') d]) @ sub) s2))
             = map nid ((nodes @ [mk_node (rnd s) (index_key index) (JStr '''') d]) @ sub)
               @ map rnd [Suc s + ?n1 ..< Suc s + ?n1 + ?n2]"
      by (simp add: generateId_def del: upt_Suc)
    have l: "s + length (item_rows (item # rest) index d) = Suc s + ?n1 + ?n2"
      using True by simp
    from True f have r: "fst (forEach_item rnd (item # rest) index d nodes s)
        = fst (forEach_item rnd rest (Suc index) d
                ((nodes @ [mk_node (rnd s) (index_key index) (JStr '''') d]) @ sub) s2)"
      by (simp add: generateId_def)
    show ?thesis
      unfolding r b l upt_cons_append [of s ?n1 ?n2] using a by (simp del: upt_Suc)
  next
    case False
    from 3(3) [OF False, of "rnd s" "Suc s"]
    have b: "map nid (fst (forEach_item rnd rest (Suc index) d
                (nodes @ [mk_node (rnd s) (index_key index) item d]) (Suc s)))
             = map nid (nodes @ [mk_node (rnd s) (index_key index) item d])
               @ map rnd [Suc s ..< Suc s + ?n2]"
      by (simp add: generateId_def del: upt_Suc)
    have l: "s + length (item_rows (item # rest) index d) = Suc s + ?n2"
      using False by simp
    from False have r: "fst (forEach_item rnd (item # rest) index d nodes s)
        = fst (forEach_item rnd rest (Suc index) d
                (nodes @ [mk_node (rnd s) (index_key index) item d]) (Suc s))"
      by (simp add: generateId_def)
    show ?thesis
      unfolding r b l upt_cons_only [of s ?n2] by (simp del: upt_Suc)
  qed
next
  case (4 rnd d nodes s)
  show ?case by simp
next
  case (5 rnd k v rest d nodes s)
  let ?n2 = "length (member_rows rest d)"
  show ?case
  proof (cases "typeof v = ''object'' \<and> v \<noteq> JNull")
    case True
    let ?n1 = "length (rows v (d + 1))"
    obtain sub s2 where f: "flattenJson rnd v (d + 1) (Suc s) = (sub, s2)"
      by (cases "flattenJson rnd v (d + 1) (Suc s)")
    from flatten_count(1) [of rnd v "d + 1" "Suc s"] f
    have s2: "s2 = Suc s + ?n1" by simp
    from 5(1) [OF True, of "rnd s" "Suc s"] f
    have a: "map nid sub = map rnd [Suc s ..< Suc s + ?n1]"
      by (simp add: generateId_def del: upt_Suc)
    from 5(2) [OF True, of "rnd s" "Suc s" sub s2] f s2
    have b: "map nid (fst (forEach_key rnd rest d
                ((nodes @ [mk_node (rnd s) k (JStr '''') d]) @ sub) s2))
             = map nid ((nodes @ [mk_node (rnd s) k (JStr '''') d]) @ sub)
               @ map rnd [Suc s + ?n1 ..< Suc s + ?n1 + ?n2]"
      by (simp add: generateId_def del: upt_Suc)
    have l: "s + length (member_rows ((k, v) # rest) d) = Suc s + ?n1 + ?n2"
      using True by simp
    from True f have r: "fst (forEach_key rnd ((k, v) # rest) d nodes s)
        = fst (forEach_key rnd rest d
                ((nodes @ [mk_node (rnd s) k (JStr '''') d]) @ sub) s2)"
      by (simp add: generateId_def)
    show ?thesis
      unfolding r b l upt_cons_append [of s ?n1 ?n2] using a by (simp del: upt_Suc)
  next
    case False
    from 5(3) [OF False, of "rnd s" "Suc s"]
    have b: "map nid (fst (forEach_key rnd rest d
                (nodes @ [mk_node (rnd s) k v d]) (Suc s)))
             = map nid (nodes @ [mk_node (rnd s) k v d])
               @ map rnd [Suc s ..< Suc s + ?n2]"
      by (simp add: generateId_def del: upt_Suc)
    have l: "s + length (member_rows ((k, v) # rest) d) = Suc s + ?n2"
      using False by (cases "typeof v = ''object''") simp_all
    from False have r: "fst (forEach_key rnd ((k, v) # rest) d nodes s)
        = fst (forEach_key rnd rest d (nodes @ [mk_node (rnd s) k v d]) (Suc s))"
      by (cases "typeof v = ''object''") (simp_all add: generateId_def)
    show ?thesis
      unfolding r b l upt_cons_only [of s ?n2] by (simp del: upt_Suc)
  qed
qed

text \<open>
  Claim C6 fails for the identifiers: they are drawn from \<^verbatim>\<open>Math.random\<close>, so a second
  application to the same value, which sees the next draws, returns rows with other
  identifiers.
\<close>

theorem flatten_ids_counterexample:
  "flattenJson rnd_demo (JObj [(''a'', JNum 1)]) 0 0 = ([mk_node ''id0'' ''a'' (JNum 1) 0], 1)
   \<and> flattenJson rnd_demo (JObj [(''a'', JNum 1)]) 0 1 = ([mk_node ''id1'' ''a'' (JNum 1) 0], 2)
   \<and> fst (flattenJson rnd_demo (JObj [(''a'', JNum 1)]) 0 0)
       \<noteq> fst (flattenJson rnd_demo (JObj [(''a'', JNum 1)]) 0 1)"
  by (simp add: flattenJson.simps generateId_def rnd_demo_small mk_node_def)

text \<open>
  Claim C6, amended. Apart from the identifiers the rows of \<open>flattenJson\<close> are a function
  of the value and the depth: two runs, with any random sources in any states, return rows
  that are equal once the identifiers are erased, and as many draws are consumed; the
  identifiers of a run are the successive draws of its random source. The
  result of \<open>nestJson\<close> is a function of the keys, payloads and depths of the rows, and does
  not depend on their identifiers. (\<open>nestJson\<close> and \<open>checkMatch\<close> read nothing but their
  arguments: unlike \<open>flattenJson\<close> they take no random source.)
\<close>

theorem flatten_deterministic_up_to_ids:
  "map (\<lambda>n. n\<lparr>nid := []\<rparr>) (fst (flattenJson rnd1 v d s1))
     = map (\<lambda>n. n\<lparr>nid := []\<rparr>) (fst (flattenJson rnd2 v d s2))
   \<and> snd (flattenJson rnd1 v d s1) - s1 = snd (flattenJson rnd2 v d s2) - s2
   \<and> map nid (fst (flattenJson rnd1 v d s1)) = map rnd1 [s1 ..< snd (flattenJson rnd1 v d s1)]
   \<and> (map shape ns = map shape ns' \<longrightarrow> nestJson ns = nestJson ns')"
  using nestJson_shape [of ns ns']
  by (simp add: flatten_erase_id flatten_count(1) flatten_ids(1) del: upt_Suc)

theorem flatten_deterministic_up_to_ids_witness:
  "map shape (fst (flattenJson rnd_demo (JObj [(''a'', JNum 1)]) 0 0))
     = map shape (fst (flattenJson rnd_demo (JObj [(''a'', JNum 1)]) 0 1))
   \<and> nestJson (fst (flattenJson rnd_demo (JObj [(''a'', JNum 1)]) 0 0))
       = nestJson (fst (flattenJson rnd_demo (JObj [(''a'', JNum 1)]) 0 1))
   \<and> nestJson (fst (flattenJson rnd_demo (JObj [(''a'', JNum 1)]) 0 0))
       = Inr (JObj [(''a'', JNum 1)])"
proof -
  have s: "map shape (fst (flattenJson rnd_demo (JObj [(''a'', JNum 1)]) 0 0))
     = map shape (fst (flattenJson rnd_demo (JObj [(''a'', JNum 1)]) 0 1))"
    by (simp add: flatten_rows(1))
  have n: "nestJson (fst (flattenJson rnd_demo (JObj [(''a'', JNum 1)]) 0 0))
       = Inr (JObj [(''a'', JNum 1)])"
    by (simp add: flattenJson.simps generateId_def nest_eval)
  from s n flatten_deterministic_up_to_ids
         [of rnd_demo "JObj [(''a'', JNum 1)]" 0 0 rnd_demo 1
             "fst (flattenJson rnd_demo (JObj [(''a'', JNum 1)]) 0 0)"
             "fst (flattenJson rnd_demo (JObj [(''a'', JNum 1)]) 0 1)"]
  show ?thesis by simp
qed


section \<open>The round trip of flat objects\<close>

lemma member_rows_flat:
  "\<forall>v \<in> snd ` set ms. \<not> is_container v \<Longrightarrow> member_rows ms d = map (\<lambda>(k, v). (k, v, d)) ms"
  by (induction ms) (auto simp: typeof_object_iff)

lemma flat_rows_loop:
  "distinct (map fst ms) \<Longrightarrow> ''__proto__'' \<notin> fst ` set ms
     \<Longrightarrow> fst ` set ms \<inter> fst ` set props = {}
     \<Longrightarrow> nest_loop (map (\<lambda>(k, v). mk_node i k v 0) ms)
           \<lparr>heap = [HObject ObjectPrototype props], stack = [(0, - 1)]\<rparr>
         = Inr \<lparr>heap = [HObject ObjectPrototype (props @ map (\<lambda>(k, v). (k, Val v)) ms)],
                stack = [(0, - 1)]\<rparr>"
proof (induction ms arbitrary: props)
  case Nil
  then show ?case by simp
next
  case (Cons m ms)
  obtain k v where m: "m = (k, v)" by (cases m)
  let ?la = "case map (\<lambda>(k, v). mk_node i k v 0) ms of [] \<Rightarrow> None | nx # after \<Rightarrow> Some nx"
  have la: "\<not> isParent (mk_node i k v 0) ?la"
    by (cases ms) (auto simp: isParent_def mk_node_def)
  from Cons.prems m have k: "k \<notin> fst ` set props" "k \<noteq> ''__proto__''" by auto
  then have "attach [HObject ObjectPrototype props] 0 k (Val v)
      = Inr [HObject ObjectPrototype (props @ [(k, Val v)])]"
    by (simp add: attach_def assign_prop_def put_own_fresh)
  with la have row: "nest_row (mk_node i k v 0) ?la
        \<lparr>heap = [HObject ObjectPrototype props], stack = [(0, - 1)]\<rparr>
      = Inr \<lparr>heap = [HObject ObjectPrototype (props @ [(k, Val v)])], stack = [(0, - 1)]\<rparr>"
    by (simp add: nest_row_def mk_node_def)
  from Cons.prems m have "distinct (map fst ms)" "''__proto__'' \<notin> fst ` set ms"
    "fst ` set ms \<inter> fst ` set (props @ [(k, Val v)]) = {}"
    by auto
  from Cons.IH [OF this] row m show ?case by simp
qed

lemma reify_flat:
  "those (map (\<lambda>(k, x). map_option (Pair k) (reify fuel h x)) (map (\<lambda>(k, v). (k, Val v)) ms))
     = Some ms"
  by (induction ms) auto

text \<open>
  Apart from the key \<^verbatim>\<open>__proto__\<close> the round trip of claim C1 holds: an object whose
  members are strings, numbers, booleans or \<^verbatim>\<open>null\<close> is returned as it was, the empty
  object included. (The object is given as \<^verbatim>\<open>Object.keys\<close> enumerates it: its keys are
  distinct and listed in the order of enumeration.)
\<close>

lemma flat_object_round_trip:
  assumes d: "distinct (map fst ms)" and p: "''__proto__'' \<notin> fst ` set ms"
    and sc: "\<forall>v \<in> snd ` set ms. \<not> is_container v"
    and en: "own_keys_order ms = ms"
  shows "nestJson (fst (flattenJson rnd (JObj ms) 0 s)) = Inr (JObj ms)"
proof -
  let ?ns = "map (\<lambda>(k, v). mk_node [] k v 0) ms"
  have "map shape (fst (flattenJson rnd (JObj ms) 0 s)) = map shape ?ns"
    by (simp add: flatten_rows(1) member_rows_flat [OF sc] comp_def case_prod_beta)
  then have e: "nestJson (fst (flattenJson rnd (JObj ms) 0 s)) = nestJson ?ns"
    by (rule nestJson_shape)
  show ?thesis
  proof (cases "ms = []")
    case True
    with e show ?thesis by (simp add: nestJson_def)
  next
    case False
    from flat_rows_loop [OF d p, of "[]" "[]"]
    have "nest_loop ?ns init_state
      = Inr \<lparr>heap = [HObject ObjectPrototype (map (\<lambda>(k, v). (k, Val v)) ms)],
             stack = [(0, - 1)]\<rparr>"
      by (simp add: init_state_def)
    moreover have "own_keys_order (map (\<lambda>(k, v). (k, Val v)) ms) = map (\<lambda>(k, v). (k, Val v)) ms"
      using own_keys_order_map [of "\<lambda>(k, v). (k, Val v)" ms] en by (simp add: case_prod_beta)
    then have "reify (Suc 0) [HObject ObjectPrototype (map (\<lambda>(k, v). (k, Val v)) ms)] (Ref 0)
        = Some (JObj ms)"
      unfolding reify.simps using reify_flat [of 0 _ ms] by (simp del: map_map)
    ultimately have "nestJson ?ns = Inr (JObj ms)"
      using False by (simp add: nestJson_def del: reify.simps)
    with e show ?thesis by simp
  qed
qed

text \<open>The scenario \<^verbatim>\<open>{"a": {"b": "x"}, "c": 1}\<close>.\<close>

lemma nested_scenario_round_trip:
  "map shape (fst (flattenJson rnd (JObj [(''a'', JObj [(''b'', JStr ''x'')]), (''c'', JNum 1)]) 0 s))
     = [(''a'', JStr '''', 0), (''b'', JStr ''x'', 1), (''c'', JNum 1, 0)]
   \<and> nestJson (fst (flattenJson rnd (JObj [(''a'', JObj [(''b'', JStr ''x'')]), (''c'', JNum 1)]) 0 s))
       = Inr (JObj [(''a'', JObj [(''b'', JStr ''x'')]), (''c'', JNum 1)])"
  by (simp add: flattenJson.simps generateId_def nest_eval shape_def numeral_2_eq_2)

section \<open>The matcher\<close>

lemma str_includes_sublist: "str_includes src pat = sublist pat src"
  by (induction src) (auto simp: sublist_Cons_right)

text \<open>
  Claim C4. \<open>checkMatch v source\<close> is true exactly when \<open>v\<close> is not a string, or the
  trimmed string is empty, or the trimmed string occurs in \<open>source\<close> as a contiguous run of
  code units (\<open>sublist\<close>: \<open>source = before @ trimmed @ after\<close>); only the ends of the value
  are trimmed and the source is taken as it is. Hence it is true of \<^verbatim>\<open>null\<close>, of every
  number and boolean and of the empty string, whatever the source, the empty one included.
\<close>

theorem checkMatch_iff:
  "(checkMatch v source \<longleftrightarrow>
      (typeof v \<noteq> ''string'' \<or>
       (\<exists>s. v = JStr s \<and> (length (trim s) = 0 \<or> sublist (trim s) source))))
   \<and> checkMatch JNull source \<and> checkMatch (JNum n) source \<and> checkMatch (JBool b) source
   \<and> checkMatch (JStr []) source
   \<and> checkMatch JNull [] \<and> checkMatch (JNum n) [] \<and> checkMatch (JBool b) []
   \<and> checkMatch (JStr []) []"
proof -
  have "checkMatch v source \<longleftrightarrow>
      (typeof v \<noteq> ''string'' \<or>
       (\<exists>s. v = JStr s \<and> (length (trim s) = 0 \<or> sublist (trim s) source)))"
  proof (cases v)
    case (JStr s)
    show ?thesis
    proof (cases "s = []")
      case True
      with JStr show ?thesis by (simp add: checkMatch_def trim_def)
    next
      case False
      with JStr show ?thesis
        by (simp add: checkMatch_def Let_def str_includes_sublist)
    qed
  qed (simp_all add: checkMatch_def)
  moreover have "checkMatch JNull src" "checkMatch (JNum n) src" "checkMatch (JBool b) src"
    "checkMatch (JStr []) src" for src
    by (simp_all add: checkMatch_def)
  ultimately show ?thesis by blast
qed

theorem checkMatch_iff_witness:
  "typeof (JStr '' hello world '') = ''string''
   \<and> checkMatch (JStr '' hello world '') ''say hello world now''
   \<and> trim '' hello world '' = ''hello world''
   \<and> sublist ''hello world'' ''say hello world now''
   \<and> \<not> checkMatch (JStr ''hello  world'') ''say hello world now''
   \<and> \<not> sublist ''hello  world'' ''say hello world now''
   \<and> \<not> checkMatch (JStr ''Hello'') ''hello''"
proof -
  have t: "trim '' hello world '' = ''hello world''" "trim ''hello  world'' = ''hello  world''"
    by (simp_all add: trim_def is_whitespace_def)
  have c: "checkMatch (JStr '' hello world '') ''say hello world now''"
    by (simp add: checkMatch_def t)
  have d: "\<not> checkMatch (JStr ''hello  world'') ''say hello world now''"
     "\<not> checkMatch (JStr ''Hello'') ''hello''"
    by (simp_all add: checkMatch_def trim_def is_whitespace_def)
  from c d t
    checkMatch_iff [of "JStr '' hello world ''" "''say hello world now''"]
    checkMatch_iff [of "JStr ''hello  world''" "''say hello world now''"]
  show ?thesis by simp
qed

section \<open>Row edits\<close>

lemma takeWhile_replicate_same: "takeWhile (\<lambda>c. c = x) (replicate n x) = replicate n x"
  by (induction n) simp_all

text \<open>
  Claim C8. The structure edit computes the number of leading \<^verbatim>\<open>#\<close> minus one, and 0
  when there is no leading \<^verbatim>\<open>#\<close>; the result is never negative; \<^verbatim>\<open>###\<close> gives 2 and
  the empty string gives 0; the edited row receives that depth; and for every depth
  \<open>d \<ge> 0\<close> the token \<open>getHashTags d\<close> exists, has \<open>d + 1\<close> characters and parses back
  to \<open>d\<close>.
\<close>

theorem structure_depth_spec:
  "structure_depth v =
     (if length (takeWhile (\<lambda>c. c = CHR ''#'') v) = 0 then 0
      else int (length (takeWhile (\<lambda>c. c = CHR ''#'') v)) - 1)
   \<and> 0 \<le> structure_depth v
   \<and> structure_depth ''###'' = 2
   \<and> structure_depth '''' = 0
   \<and> (\<forall>j < length (flatNodes doc). nid (flatNodes doc ! j) = i \<longrightarrow>
         depth (handleRowChange doc i v Structure ! j) = structure_depth v)
   \<and> (0 \<le> d \<longrightarrow>
        (\<exists>t. getHashTags d = Inr t \<and> length t = nat d + 1 \<and> structure_depth t = d))"
proof -
  have a: "structure_depth v =
     (if length (takeWhile (\<lambda>c. c = CHR ''#'') v) = 0 then 0
      else int (length (takeWhile (\<lambda>c. c = CHR ''#'') v)) - 1)"
    by (simp add: structure_depth_def match_hashes_def split: list.splits)
  have b: "0 \<le> structure_depth v"
    by (simp add: structure_depth_def match_hashes_def split: list.splits)
  have c: "structure_depth ''###'' = 2" "structure_depth '''' = 0"
    by (simp_all add: structure_depth_def match_hashes_def)
  have h: "\<forall>j < length (flatNodes doc). nid (flatNodes doc ! j) = i \<longrightarrow>
         depth (handleRowChange doc i v Structure ! j) = structure_depth v"
    by (simp add: handleRowChange_def)
  have e: "\<exists>t. getHashTags d = Inr t \<and> length t = nat d + 1 \<and> structure_depth t = d" if "0 \<le> d"
  proof -
    from that have n: "nat (d + 1) = Suc (nat d)" by simp
    have "match_hashes (replicate (Suc (nat d)) CHR ''#'')
            = Some (replicate (Suc (nat d)) CHR ''#'')"
      unfolding match_hashes_def takeWhile_replicate_same by simp
    then have "structure_depth (replicate (Suc (nat d)) CHR ''#'') = d"
      using that by (simp add: structure_depth_def del: replicate_Suc)
    with that n show ?thesis by (simp add: getHashTags_def del: replicate_Suc)
  qed
  from a b c h e show ?thesis by blast
qed

theorem structure_depth_spec_witness:
  "(1::nat) < length (flatNodes doc2) \<and> nid (flatNodes doc2 ! 1) = ''r2''
   \<and> depth (handleRowChange doc2 ''r2'' ''###'' Structure ! 1) = 2
   \<and> (0::int) \<le> 2 \<and> getHashTags 2 = Inr ''###'' \<and> structure_depth ''###'' = 2"
proof -
  have g: "getHashTags 2 = Inr ''###''"
    by (simp add: getHashTags_def numeral_3_eq_3)
  have l: "(1::nat) < length (flatNodes doc2)" "nid (flatNodes doc2 ! 1) = ''r2''"
    by (simp_all add: doc2_def mk_node_def)
  from g l structure_depth_spec [of "''###''" doc2 "''r2''" 2] show ?thesis by simp
qed

text \<open>
  Claim C9. An edit of the row with identifier \<open>i\<close>, of any of the three kinds, returns a
  list of the same length in which every row keeps its identifier and every row with
  another identifier is unchanged; a structure or key edit leaves the \<open>isMatch\<close> field of
  every row, the edited one included, as it was.
\<close>

theorem handleRowChange_frame:
  "length (handleRowChange doc i v ty) = length (flatNodes doc)
   \<and> (\<forall>j < length (flatNodes doc).
         nid (handleRowChange doc i v ty ! j) = nid (flatNodes doc ! j)
         \<and> (nid (flatNodes doc ! j) \<noteq> i \<longrightarrow> handleRowChange doc i v ty ! j = flatNodes doc ! j)
         \<and> (ty \<noteq> Value \<longrightarrow>
              isMatch (handleRowChange doc i v ty ! j) = isMatch (flatNodes doc ! j)))"
  by (cases ty) (simp_all add: handleRowChange_def)

theorem handleRowChange_frame_witness:
  "(0::nat) < length (flatNodes doc2) \<and> nid (flatNodes doc2 ! 0) \<noteq> ''r2'' \<and> Key \<noteq> Value
   \<and> handleRowChange doc2 ''r2'' ''k'' Key ! 0 = flatNodes doc2 ! 0
   \<and> handleRowChange doc2 ''r2'' ''k'' Key ! 1 = mk_node ''r2'' ''k'' (JStr ''x'') 1
   \<and> isMatch (handleRowChange doc2 ''r2'' ''k'' Key ! 1) = isMatch (flatNodes doc2 ! 1)"
proof -
  have l: "(0::nat) < length (flatNodes doc2)" "nid (flatNodes doc2 ! 0) \<noteq> ''r2''"
    by (simp_all add: doc2_def mk_node_def)
  have e: "handleRowChange doc2 ''r2'' ''k'' Key ! 1 = mk_node ''r2'' ''k'' (JStr ''x'') 1"
    by (simp add: handleRowChange_def doc2_def mk_node_def)
  from l e handleRowChange_frame [of doc2 "''r2''" "''k''" Key] show ?thesis
    by (simp add: doc2_def mk_node_def)
qed

end
